theory Spec2Isabelle
  imports Main "HOL-Library.Word" "HOL-Library.Multiset"
begin

unbundle bit_operations_syntax

section \<open>Cell values and directions (hexpathfinder.h)\<close>

text \<open>
  A cell is one byte (\<open>uint8_t\<close>): six wall bits, the \<open>VISITED\<close> path flag and the
  \<open>DEAD_END\<close> flag. Row and column numbers, sizes and cell indices are \<open>uint32_t\<close> in the
  source; they are natural numbers here, and every place where the source's 32-bit
  arithmetic can wrap (the casts to \<open>int\<close> in \<open>getNeighbor\<close>, \<open>nR * nC\<close>,
  \<open>totalCells - 1\<close>, \<open>nR - 1\<close>) has the wrap-around written out.
\<close>

type_synonym u8 = "8 word"

definition MAX_ROWS :: nat where "MAX_ROWS = 50"
definition MAX_COLS :: nat where "MAX_COLS = 50"

definition WALL_UP :: u8 where "WALL_UP = 0x01"
definition WALL_UP_RIGHT :: u8 where "WALL_UP_RIGHT = 0x02"
definition WALL_DOWN_RIGHT :: u8 where "WALL_DOWN_RIGHT = 0x04"
definition WALL_DOWN :: u8 where "WALL_DOWN = 0x08"
definition WALL_DOWN_LEFT :: u8 where "WALL_DOWN_LEFT = 0x10"
definition WALL_UP_LEFT :: u8 where "WALL_UP_LEFT = 0x20"
definition ALL_WALLS :: u8 where "ALL_WALLS = 0x3F"
definition VISITED :: u8 where "VISITED = 0x40"
definition DEAD_END :: u8 where "DEAD_END = 0x80"

lemmas wall_defs =
  WALL_UP_def WALL_UP_RIGHT_def WALL_DOWN_RIGHT_def WALL_DOWN_def WALL_DOWN_LEFT_def
  WALL_UP_LEFT_def

definition getOppositeWall :: "u8 \<Rightarrow> u8" where
  "getOppositeWall wallDirection =
     (if wallDirection = WALL_UP then WALL_DOWN
      else if wallDirection = WALL_UP_RIGHT then WALL_DOWN_LEFT
      else if wallDirection = WALL_DOWN_RIGHT then WALL_UP_LEFT
      else if wallDirection = WALL_DOWN then WALL_UP
      else if wallDirection = WALL_DOWN_LEFT then WALL_UP_RIGHT
      else if wallDirection = WALL_UP_LEFT then WALL_DOWN_RIGHT
      else 0)"

section \<open>Neighbor resolution (main.cpp, getNeighbor)\<close>

text \<open>
  \<open>static_cast<int>\<close> of a \<open>uint32_t\<close>: values from \<open>2^31\<close> on become negative.
\<close>

definition static_cast_int :: "nat \<Rightarrow> int" where
  "static_cast_int x = (if x < 2 ^ 31 then int x else int x - 2 ^ 32)"

text \<open>
  The switch of \<open>getNeighbor\<close>: the candidate coordinates \<open>(tempR, tempC)\<close>, or \<open>None\<close>
  for the \<open>default\<close> branch (an invalid direction).
\<close>

definition neighborOffset :: "int \<Rightarrow> int \<Rightarrow> u8 \<Rightarrow> (int \<times> int) option" where
  "neighborOffset nr_int nc_int wallDirection =
     (if wallDirection = WALL_UP then Some (nr_int - 1, nc_int)
      else if wallDirection = WALL_DOWN then Some (nr_int + 1, nc_int)
      else if wallDirection = WALL_UP_RIGHT then Some (nr_int - 1 + (nc_int AND 1), nc_int + 1)
      else if wallDirection = WALL_DOWN_RIGHT then Some (nr_int + (nc_int AND 1), nc_int + 1)
      else if wallDirection = WALL_UP_LEFT then Some (nr_int - 1 + (nc_int AND 1), nc_int - 1)
      else if wallDirection = WALL_DOWN_LEFT then Some (nr_int + (nc_int AND 1), nc_int - 1)
      else None)"

text \<open>
  \<open>getNeighbor\<close> returns \<open>false\<close> (here \<open>None\<close>) or \<open>true\<close> with the two reference
  parameters written (here \<open>Some (neighborR, neighborC)\<close>).
\<close>

definition getNeighbor :: "nat \<Rightarrow> nat \<Rightarrow> u8 \<Rightarrow> nat \<Rightarrow> nat \<Rightarrow> (nat \<times> nat) option" where
  "getNeighbor r c wallDirection nR nC =
     (let nr_int = static_cast_int r; nc_int = static_cast_int c;
          nR_int = static_cast_int nR; nC_int = static_cast_int nC
      in case neighborOffset nr_int nc_int wallDirection of
           None \<Rightarrow> None
         | Some (tempR, tempC) \<Rightarrow>
             if tempR \<ge> 0 \<and> tempR < nR_int \<and> tempC \<ge> 0 \<and> tempC < nC_int
             then Some (nat tempR, nat tempC)
             else None)"

definition directions :: "u8 list" where
  "directions =
     [WALL_UP, WALL_DOWN, WALL_UP_LEFT, WALL_UP_RIGHT, WALL_DOWN_LEFT, WALL_DOWN_RIGHT]"


section \<open>The grid\<close>

text \<open>
  The grid is the array \<open>uint8_t maze[MAX_ROWS][MAX_COLS]\<close>, a function from row and column
  to the cell byte. \<open>set_cell a r c v\<close> is the assignment \<open>a[r][c] = v\<close>. With
  \<open>nR \<le> MAX_ROWS\<close> and \<open>nC \<le> MAX_COLS\<close> every access the source makes is to a cell
  \<open>r < nR\<close>, \<open>c < nC\<close>, inside the array.
\<close>

type_synonym maze = "nat \<Rightarrow> nat \<Rightarrow> u8"

definition set_cell :: "(nat \<Rightarrow> nat \<Rightarrow> 'a) \<Rightarrow> nat \<Rightarrow> nat \<Rightarrow> 'a \<Rightarrow> (nat \<Rightarrow> nat \<Rightarrow> 'a)" where
  "set_cell a r c v = a(r := (a r)(c := v))"

section \<open>Disjoint set union (main.cpp, struct DSU)\<close>

record DSU =
  parent :: "nat list"

text \<open>The constructor: \<open>parent.resize(n); iota(parent.begin(), parent.end(), 0)\<close>.\<close>

definition DSU_new :: "nat \<Rightarrow> DSU" where
  "DSU_new n = \<lparr>parent = [0..<n]\<rparr>"

text \<open>
  \<open>find\<close> with path compression. The recursion follows the parent links, so it returns
  only when they lead to a root: not returning is the value \<open>None\<close>, and so is an index
  outside the vector (undefined behaviour in the source). The result is the root and the
  structure with the compressed path.
\<close>

partial_function (option) DSU_find :: "DSU \<Rightarrow> nat \<Rightarrow> (nat \<times> DSU) option" where
  "DSU_find dsu i =
     (if i \<ge> length (parent dsu) then None
      else if parent dsu ! i = i then Some (i, dsu)
      else Option.bind (DSU_find dsu (parent dsu ! i))
             (\<lambda>(root, dsu'). Some (root, dsu'\<lparr>parent := (parent dsu')[i := root]\<rparr>)))"

definition DSU_unite :: "DSU \<Rightarrow> nat \<Rightarrow> nat \<Rightarrow> DSU option" where
  "DSU_unite dsu i j =
     Option.bind (DSU_find dsu i) (\<lambda>(root_i, dsu1).
     Option.bind (DSU_find dsu1 j) (\<lambda>(root_j, dsu2).
       if root_i \<noteq> root_j then
         (if root_i < length (parent dsu2)
          then Some (dsu2\<lparr>parent := (parent dsu2)[root_i := root_j]\<rparr>)
          else None)
       else Some dsu2))"

section \<open>Maze generation (main.cpp, generateMaze)\<close>

text \<open>The struct \<open>Wall\<close>: fields \<open>r\<close>, \<open>c\<close> and \<open>direction\<close>.\<close>

datatype Wall = Wall (wall_r: nat) (wall_c: nat) (wall_direction: u8)

text \<open>Step 1: every cell of the \<open>nR \<times> nC\<close> grid is set to \<open>ALL_WALLS\<close>.\<close>

definition initMaze :: "maze \<Rightarrow> nat \<Rightarrow> nat \<Rightarrow> maze" where
  "initMaze maze nR nC =
     fold (\<lambda>r m. fold (\<lambda>c m. set_cell m r c ALL_WALLS) [0..<nC] m) [0..<nR] maze"

text \<open>
  Step 3: the candidates of one cell, pushed in the source's order (\<open>WALL_DOWN\<close>,
  \<open>WALL_UP_RIGHT\<close>, \<open>WALL_DOWN_RIGHT\<close>), and the two loops over the cells.
\<close>

definition cellWalls :: "nat \<Rightarrow> nat \<Rightarrow> nat \<Rightarrow> nat \<Rightarrow> Wall list" where
  "cellWalls nR nC r c =
     (if getNeighbor r c WALL_DOWN nR nC \<noteq> None then [Wall r c WALL_DOWN] else []) @
     (if getNeighbor r c WALL_UP_RIGHT nR nC \<noteq> None then [Wall r c WALL_UP_RIGHT] else []) @
     (if getNeighbor r c WALL_DOWN_RIGHT nR nC \<noteq> None then [Wall r c WALL_DOWN_RIGHT] else [])"

definition internalWalls :: "nat \<Rightarrow> nat \<Rightarrow> Wall list" where
  "internalWalls nR nC =
     fold (\<lambda>r ws. fold (\<lambda>c ws. ws @ cellWalls nR nC r c) [0..<nC] ws) [0..<nR] []"

text \<open>
  Step 5: the loop over the shuffled candidates. The state is the grid, the union-find
  structure and \<open>wallsRemoved\<close>; the first equation's guard is the \<open>break\<close>. The two
  operands of \<open>dsu.find(cell1_idx) != dsu.find(cell2_idx)\<close> are evaluated left to right
  (either order gives the same roots).
\<close>

fun removeWalls :: "nat \<Rightarrow> nat \<Rightarrow> nat \<Rightarrow> Wall list \<Rightarrow> maze \<times> DSU \<times> nat \<Rightarrow> (maze \<times> DSU \<times> nat) option" where
  "removeWalls nR nC targetWallsToRemove [] st = Some st"
| "removeWalls nR nC targetWallsToRemove (wall # walls) (maze, dsu, wallsRemoved) =
     (if wallsRemoved \<ge> targetWallsToRemove then Some (maze, dsu, wallsRemoved)
      else
        let r1 = wall_r wall; c1 = wall_c wall; direction = wall_direction wall in
        case getNeighbor r1 c1 direction nR nC of
          None \<Rightarrow> removeWalls nR nC targetWallsToRemove walls (maze, dsu, wallsRemoved)
        | Some (r2, c2) \<Rightarrow>
            let cell1_idx = r1 * nC + c1; cell2_idx = r2 * nC + c2 in
            case DSU_find dsu cell1_idx of
              None \<Rightarrow> None
            | Some (root1, dsu1) \<Rightarrow>
               (case DSU_find dsu1 cell2_idx of
                  None \<Rightarrow> None
                | Some (root2, dsu2) \<Rightarrow>
                    if root1 \<noteq> root2 then
                      let oppositeWall = getOppositeWall direction;
                          maze1 = set_cell maze r1 c1 (maze r1 c1 AND NOT direction);
                          maze2 = set_cell maze1 r2 c2 (maze1 r2 c2 AND NOT oppositeWall)
                      in case DSU_unite dsu2 cell1_idx cell2_idx of
                           None \<Rightarrow> None
                         | Some dsu3 \<Rightarrow>
                             removeWalls nR nC targetWallsToRemove walls
                               (maze2, dsu3, wallsRemoved + 1)
                    else removeWalls nR nC targetWallsToRemove walls (maze, dsu2, wallsRemoved)))"

text \<open>
  \<open>generateMaze\<close>. The generator \<open>rng\<close> is used by \<open>std::shuffle\<close> only, so it is the
  reordering that the shuffle applies to the candidate list. The result is the grid on
  return and whether the warning was written to \<open>cerr\<close>; \<open>None\<close> when a \<open>find\<close> does
  not return.
\<close>

definition generateMaze :: "maze \<Rightarrow> nat \<Rightarrow> nat \<Rightarrow> (Wall list \<Rightarrow> Wall list) \<Rightarrow> (maze \<times> bool) option" where
  "generateMaze maze nR nC rng =
     (let maze0 = initMaze maze nR nC;
          totalCells = (nR * nC) mod 2 ^ 32;
          dsu = DSU_new totalCells;
          shuffled = rng (internalWalls nR nC);
          targetWallsToRemove = (totalCells + 2 ^ 32 - 1) mod 2 ^ 32
      in case removeWalls nR nC targetWallsToRemove shuffled (maze0, dsu, 0) of
           None \<Rightarrow> None
         | Some (maze', dsu', wallsRemoved) \<Rightarrow> Some (maze', wallsRemoved < targetWallsToRemove))"

section \<open>Basic facts about neighbor resolution\<close>

lemma static_cast_int_small: "x < 2 ^ 31 \<Longrightarrow> static_cast_int x = int x"
  by (simp add: static_cast_int_def)

lemma getNeighbor_dims:
  assumes "getNeighbor r c dir nR nC = Some (r2, c2)"
  shows "r2 < nR \<and> c2 < nC"
  using assms
  by (auto simp: getNeighbor_def static_cast_int_def Let_def split: option.splits if_splits)

lemma getNeighbor_small:
  assumes "getNeighbor r c dir nR nC = Some p" "nR < 2 ^ 32" "nC < 2 ^ 32"
  shows "nR < 2 ^ 31 \<and> nC < 2 ^ 31"
  using assms
  by (auto simp: getNeighbor_def static_cast_int_def Let_def split: option.splits if_splits)

lemma neighborOffset_valid_dir:
  "neighborOffset a b dir = Some p \<Longrightarrow> dir \<in> set directions"
  by (simp add: neighborOffset_def directions_def split: if_splits)

lemma getNeighbor_valid_dir:
  "getNeighbor r c dir nR nC = Some p \<Longrightarrow> dir \<in> set directions"
  by (auto simp: getNeighbor_def Let_def split: option.splits dest: neighborOffset_valid_dir)

lemma getNeighbor_eq:
  assumes "nR < 2 ^ 31" "nC < 2 ^ 31" "r < nR" "c < nC"
  shows "getNeighbor r c dir nR nC =
    (case neighborOffset (int r) (int c) dir of
       None \<Rightarrow> None
     | Some (tr, tc) \<Rightarrow>
         if 0 \<le> tr \<and> tr < int nR \<and> 0 \<le> tc \<and> tc < int nC then Some (nat tr, nat tc) else None)"
proof -
  have "r < 2 ^ 31" "c < 2 ^ 31" using assms by auto
  then show ?thesis using assms
    by (simp add: getNeighbor_def static_cast_int_small Let_def)
qed

lemma neighborOffset_opp:
  assumes "neighborOffset (int r) (int c) dir = Some (int r2, int c2)"
  shows "neighborOffset (int r2) (int c2) (getOppositeWall dir) = Some (int r, int c)"
proof -
  from assms(1) have "dir \<in> set directions" by (rule neighborOffset_valid_dir)
  then consider "dir = WALL_UP" | "dir = WALL_DOWN" | "dir = WALL_UP_LEFT" | "dir = WALL_UP_RIGHT"
    | "dir = WALL_DOWN_LEFT" | "dir = WALL_DOWN_RIGHT"
    by (auto simp: directions_def)
  then show ?thesis
  proof cases
    case 1 with assms show ?thesis by (simp add: neighborOffset_def getOppositeWall_def wall_defs)
  next
    case 2 with assms show ?thesis by (simp add: neighborOffset_def getOppositeWall_def wall_defs)
  next
    case 3 with assms show ?thesis
      apply (simp add: neighborOffset_def getOppositeWall_def wall_defs and_one_eq)
      apply presburger
      done
  next
    case 4 with assms show ?thesis
      apply (simp add: neighborOffset_def getOppositeWall_def wall_defs and_one_eq)
      apply presburger
      done
  next
    case 5 with assms show ?thesis
      apply (simp add: neighborOffset_def getOppositeWall_def wall_defs and_one_eq)
      apply presburger
      done
  next
    case 6 with assms show ?thesis
      apply (simp add: neighborOffset_def getOppositeWall_def wall_defs and_one_eq)
      apply presburger
      done
  qed
qed

lemma getNeighbor_opp:
  assumes "getNeighbor r c dir nR nC = Some (r2, c2)" "r < nR" "c < nC"
    "nR < 2 ^ 32" "nC < 2 ^ 32"
  shows "getNeighbor r2 c2 (getOppositeWall dir) nR nC = Some (r, c)"
proof -
  from assms(1,4,5) have small: "nR < 2 ^ 31" "nC < 2 ^ 31" using getNeighbor_small by blast+
  from assms(1) have b2: "r2 < nR" "c2 < nC" using getNeighbor_dims by blast+
  from assms(1) have off: "neighborOffset (int r) (int c) dir = Some (int r2, int c2)"
    by (auto simp: getNeighbor_eq[OF small assms(2,3)] split: option.splits if_splits)
  from neighborOffset_opp[OF off]
  show ?thesis using assms(2,3)
    by (simp add: getNeighbor_eq[OF small b2])
qed

lemma set_cell_apply:
  "set_cell a r c v r' c' = (if r' = r \<and> c' = c then v else a r' c')"
  by (simp add: set_cell_def)

lemma neighborOffset_neq:
  assumes "neighborOffset a b dir = Some (tr, tc)"
  shows "(tr = a - 1 \<or> tr = a + 1) \<and> tc = b \<or> tc = b - 1 \<or> tc = b + 1"
  using assms by (auto simp: neighborOffset_def split: if_splits)

lemma static_cast_int_nat:
  "0 \<le> static_cast_int x + k \<Longrightarrow> k = 1 \<or> k = -1 \<Longrightarrow> nat (static_cast_int x + k) \<noteq> x"
  by (auto simp: static_cast_int_def split: if_splits)

lemma getNeighbor_neq:
  assumes "getNeighbor r c dir nR nC = Some (r2, c2)"
  shows "(r2, c2) \<noteq> (r, c)"
proof -
  from assms obtain tr tc where
    off: "neighborOffset (static_cast_int r) (static_cast_int c) dir = Some (tr, tc)"
    and pos: "0 \<le> tr" "0 \<le> tc" and eq: "r2 = nat tr" "c2 = nat tc"
    by (auto simp: getNeighbor_def Let_def split: option.splits if_splits)
  from neighborOffset_neq[OF off] pos eq show ?thesis
    using static_cast_int_nat[of r "-1"] static_cast_int_nat[of r 1]
      static_cast_int_nat[of c "-1"] static_cast_int_nat[of c 1]
    by auto
qed

section \<open>Maze solving (main.cpp, solveMazeBFS)\<close>

text \<open>
  The table \<open>int count[MAX_ROWS][MAX_COLS]\<close> is \<open>cnt\<close> here. The state of the
  breadth-first loop is the table, the queue of cell indices (front first) and a log of
  every index given to \<open>q.push\<close>, in order.
\<close>

type_synonym bfs_state = "(nat \<Rightarrow> nat \<Rightarrow> int) \<times> nat list \<times> nat list"

definition bfs_visit :: "maze \<Rightarrow> nat \<Rightarrow> nat \<Rightarrow> nat \<Rightarrow> nat \<Rightarrow> u8 \<Rightarrow> bfs_state \<Rightarrow> bfs_state" where
  "bfs_visit maze nR nC r c dir st =
     (case st of (cnt, q, pushed) \<Rightarrow>
        if maze r c AND dir = 0 then
          (case getNeighbor r c dir nR nC of
             None \<Rightarrow> st
           | Some (neighborR, neighborC) \<Rightarrow>
               if cnt neighborR neighborC = -1 then
                 (set_cell cnt neighborR neighborC (cnt r c + 1),
                  q @ [neighborR * nC + neighborC],
                  pushed @ [neighborR * nC + neighborC])
               else st)
        else st)"

definition unlabelled :: "nat \<Rightarrow> nat \<Rightarrow> (nat \<Rightarrow> nat \<Rightarrow> int) \<Rightarrow> (nat \<times> nat) set" where
  "unlabelled nR nC cnt = {(r, c). r < nR \<and> c < nC \<and> cnt r c = -1}"

definition minus2 :: "nat \<Rightarrow> (nat \<Rightarrow> nat \<Rightarrow> int) \<Rightarrow> nat list \<Rightarrow> nat" where
  "minus2 nC cnt q = length (filter (\<lambda>e. cnt (e div nC) (e mod nC) = -2) q)"

lemma finite_unlabelled: "finite (unlabelled nR nC cnt)"
proof -
  have "unlabelled nR nC cnt \<subseteq> {..<nR} \<times> {..<nC}" by (auto simp: unlabelled_def)
  then show ?thesis by (rule finite_subset) simp
qed

lemma unlabelled_set_cell:
  assumes "r < nR" "c < nC" "cnt r c = -1" "v \<noteq> -1"
  shows "card (unlabelled nR nC (set_cell cnt r c v)) < card (unlabelled nR nC cnt)"
proof -
  have "unlabelled nR nC (set_cell cnt r c v) = unlabelled nR nC cnt - {(r, c)}"
    using assms by (auto simp: unlabelled_def set_cell_apply split: if_splits)
  moreover have "(r, c) \<in> unlabelled nR nC cnt" using assms by (simp add: unlabelled_def)
  ultimately show ?thesis using finite_unlabelled[of nR nC cnt]
    by (metis card_Diff1_less)
qed

lemma set_cell_same: "cnt r c = v \<Longrightarrow> set_cell cnt r c v = cnt"
  by (auto simp: set_cell_def fun_eq_iff)

lemma idx_div_mod: "c < nC \<Longrightarrow> (r * nC + c) div nC = r \<and> (r * nC + c) mod nC = (c::nat)"
  by (cases "nC = 0") (simp_all add: div_mult_self3)

text \<open>One direction of the scan: what it can do to the state.\<close>

lemma bfs_visit_cases:
  obtains (same) "bfs_visit maze nR nC r c dir (cnt, q, pushed) = (cnt, q, pushed)"
  | (push) r2 c2 where "getNeighbor r c dir nR nC = Some (r2, c2)" "maze r c AND dir = 0"
      "cnt r2 c2 = -1"
      "bfs_visit maze nR nC r c dir (cnt, q, pushed) =
         (set_cell cnt r2 c2 (cnt r c + 1), q @ [r2 * nC + c2], pushed @ [r2 * nC + c2])"
proof (cases "maze r c AND dir = 0")
  case False
  then show ?thesis using same by (simp add: bfs_visit_def)
next
  case open_dir: True
  show ?thesis
  proof (cases "getNeighbor r c dir nR nC")
    case None
    then show ?thesis using same by (simp add: bfs_visit_def)
  next
    case (Some p)
    obtain r2 c2 where p: "p = (r2, c2)" by (cases p)
    show ?thesis
    proof (cases "cnt r2 c2 = -1")
      case True
      with Some p open_dir show ?thesis using push[of r2 c2] by (simp add: bfs_visit_def)
    next
      case False
      with Some p show ?thesis using same by (simp add: bfs_visit_def)
    qed
  qed
qed

lemma bfs_visit_measure:
  assumes "bfs_visit maze nR nC r c dir (cnt, q, pushed) = (cnt', q', pushed')"
  shows "cnt' r c = cnt r c \<and>
    (if cnt r c = -2 then cnt' = cnt \<and> minus2 nC cnt' q' = minus2 nC cnt q
     else (cnt', q', pushed') = (cnt, q, pushed) \<or>
          card (unlabelled nR nC cnt') < card (unlabelled nR nC cnt))"
proof (cases rule: bfs_visit_cases[of maze nR nC r c dir cnt q pushed])
  case same
  with assms show ?thesis by simp
next
  case (push r2 c2)
  from push(1) have b: "r2 < nR" "c2 < nC" using getNeighbor_dims by blast+
  from push(1) have ne: "(r2, c2) \<noteq> (r, c)" by (rule getNeighbor_neq)
  from push(4) assms have eq: "cnt' = set_cell cnt r2 c2 (cnt r c + 1)" "q' = q @ [r2 * nC + c2]"
    by simp_all
  have stable: "cnt' r c = cnt r c" using ne by (auto simp: eq set_cell_apply)
  show ?thesis
  proof (cases "cnt r c = -2")
    case True
    then have same: "cnt' = cnt" using push(3) by (simp add: eq set_cell_same)
    have "minus2 nC cnt' q' = minus2 nC cnt q"
      using push(3) b by (simp add: minus2_def eq(2) same)
    with True same stable show ?thesis by simp
  next
    case False
    then have "cnt r c + 1 \<noteq> -1" by simp
    from unlabelled_set_cell[of r2 nR c2 nC cnt "cnt r c + 1", OF b push(3) this] False stable
    show ?thesis by (simp add: eq)
  qed
qed

lemma fold_bfs_visit_measure:
  assumes "fold (bfs_visit maze nR nC r c) ds (cnt, q, pushed) = (cnt', q', pushed')"
  shows "cnt' r c = cnt r c \<and>
    (if cnt r c = -2 then cnt' = cnt \<and> minus2 nC cnt' q' = minus2 nC cnt q
     else (cnt', q', pushed') = (cnt, q, pushed) \<or>
          card (unlabelled nR nC cnt') < card (unlabelled nR nC cnt))"
  using assms
proof (induction ds arbitrary: cnt q pushed)
  case Nil
  then show ?case by simp
next
  case (Cons d ds)
  obtain cnt1 q1 pushed1 where
    st1: "bfs_visit maze nR nC r c d (cnt, q, pushed) = (cnt1, q1, pushed1)"
    by (cases "bfs_visit maze nR nC r c d (cnt, q, pushed)")
  from Cons.prems st1 have
    rest: "fold (bfs_visit maze nR nC r c) ds (cnt1, q1, pushed1) = (cnt', q', pushed')"
    by simp
  note a = bfs_visit_measure[OF st1] and b = Cons.IH[OF rest]
  show ?case
  proof (cases "cnt r c = -2")
    case True
    with a have a': "cnt1 = cnt" "minus2 nC cnt1 q1 = minus2 nC cnt q" by meson+
    from True a' have "cnt1 r c = -2" by blast
    with b have b': "cnt' = cnt1" "minus2 nC cnt' q' = minus2 nC cnt1 q1" by meson+
    have "cnt' = cnt" using a'(1) b'(1) by (rule trans[rotated])
    moreover have "minus2 nC cnt' q' = minus2 nC cnt q" using b'(2) a'(2) by (rule trans)
    ultimately show ?thesis using True by simp
  next
    case False
    with a b show ?thesis by (auto split: if_splits)
  qed
qed

function bfs_loop :: "maze \<Rightarrow> nat \<Rightarrow> nat \<Rightarrow> bfs_state \<Rightarrow> bfs_state" where
  "bfs_loop maze nR nC (cnt, [], pushed) = (cnt, [], pushed)"
| "bfs_loop maze nR nC (cnt, currentIdx # q, pushed) =
     bfs_loop maze nR nC
       (fold (bfs_visit maze nR nC (currentIdx div nC) (currentIdx mod nC)) directions
          (cnt, q, pushed))"
  by pat_completeness auto
termination
proof (relation "measures
    [\<lambda>(maze, nR, nC, cnt, q, pushed). card (unlabelled nR nC cnt),
     \<lambda>(maze, nR, nC, cnt, q, pushed). minus2 nC cnt q,
     \<lambda>(maze, nR, nC, cnt, q, pushed). length q]", goal_cases)
  case 1
  show ?case by simp
next
  case (2 maze nR nC cnt currentIdx q pushed)
  obtain cnt' q' pushed' where
    st: "fold (bfs_visit maze nR nC (currentIdx div nC) (currentIdx mod nC)) directions
           (cnt, q, pushed) = (cnt', q', pushed')"
    by (cases "fold (bfs_visit maze nR nC (currentIdx div nC) (currentIdx mod nC)) directions
           (cnt, q, pushed)")
  from fold_bfs_visit_measure[OF st] show ?case
    by (auto simp: st minus2_def split: if_splits)
qed


fun find_next :: "maze \<Rightarrow> (nat \<Rightarrow> nat \<Rightarrow> int) \<Rightarrow> nat \<Rightarrow> nat \<Rightarrow> nat \<Rightarrow> nat \<Rightarrow> u8 list \<Rightarrow> (nat \<times> nat) option" where
  "find_next maze cnt nR nC currentR currentC [] = None"
| "find_next maze cnt nR nC currentR currentC (dir # dirs) =
     (if maze currentR currentC AND dir = 0 then
        (case getNeighbor currentR currentC dir nR nC of
           None \<Rightarrow> find_next maze cnt nR nC currentR currentC dirs
         | Some (neighborR, neighborC) \<Rightarrow>
             if cnt neighborR neighborC = cnt currentR currentC - 1
             then Some (neighborR, neighborC)
             else find_next maze cnt nR nC currentR currentC dirs)
      else find_next maze cnt nR nC currentR currentC dirs)"

datatype solve_status = InvalidEnd | NoSolution | TraceError | Solved

lemma find_next_Some:
  assumes "find_next maze cnt nR nC r c dirs = Some (r2, c2)"
  shows "\<exists>dir \<in> set dirs. maze r c AND dir = 0 \<and> getNeighbor r c dir nR nC = Some (r2, c2)
           \<and> cnt r2 c2 = cnt r c - 1"
  using assms
  by (induction dirs) (auto split: if_splits option.splits)

definition below :: "nat \<Rightarrow> nat \<Rightarrow> (nat \<Rightarrow> nat \<Rightarrow> int) \<Rightarrow> int \<Rightarrow> (nat \<times> nat) set" where
  "below nR nC cnt k = {(r, c). r < nR \<and> c < nC \<and> cnt r c < k}"

lemma finite_below: "finite (below nR nC cnt k)"
proof -
  have "below nR nC cnt k \<subseteq> {..<nR} \<times> {..<nC}" by (auto simp: below_def)
  then show ?thesis by (rule finite_subset) simp
qed

lemma below_step:
  assumes "r2 < nR" "c2 < nC" "cnt r2 c2 = k - 1"
  shows "card (below nR nC cnt (k - 1)) < card (below nR nC cnt k)"
proof -
  have "below nR nC cnt (k - 1) \<subseteq> below nR nC cnt k" by (auto simp: below_def)
  moreover have "(r2, c2) \<in> below nR nC cnt k" "(r2, c2) \<notin> below nR nC cnt (k - 1)"
    using assms by (auto simp: below_def)
  ultimately have "below nR nC cnt (k - 1) \<subset> below nR nC cnt k" by blast
  then show ?thesis by (rule psubset_card_mono[OF finite_below])
qed

declare bfs_loop.simps [simp del]

function trace_loop :: "(nat \<Rightarrow> nat \<Rightarrow> int) \<Rightarrow> nat \<Rightarrow> nat \<Rightarrow> maze \<Rightarrow> nat \<Rightarrow> nat \<Rightarrow> solve_status \<times> maze" where
  "trace_loop cnt nR nC maze currentR currentC =
     (if cnt currentR currentC \<noteq> 0 then
        (case find_next maze cnt nR nC currentR currentC directions of
           None \<Rightarrow> (TraceError, maze)
         | Some (neighborR, neighborC) \<Rightarrow>
             trace_loop cnt nR nC
               (set_cell maze neighborR neighborC (maze neighborR neighborC OR VISITED))
               neighborR neighborC)
      else (Solved, maze))"
  by pat_completeness auto
termination
proof (relation "measure (\<lambda>(cnt, nR, nC, maze, r, c). card (below nR nC cnt (cnt r c)))", goal_cases)
  case 1
  show ?case by simp
next
  case (2 cnt nR nC maze currentR currentC p neighborR neighborC)
  then have "find_next maze cnt nR nC currentR currentC directions = Some (neighborR, neighborC)"
    by simp
  from find_next_Some[OF this] obtain dir where
    nb: "getNeighbor currentR currentC dir nR nC = Some (neighborR, neighborC)"
    and lab: "cnt neighborR neighborC = cnt currentR currentC - 1"
    by blast
  from nb have "neighborR < nR" "neighborC < nC" using getNeighbor_dims by blast+
  from below_step[of neighborR nR neighborC nC cnt "cnt currentR currentC", OF this lab] lab
  show ?case by simp
qed

declare trace_loop.simps [simp del]

definition solveInit :: "(nat \<Rightarrow> nat \<Rightarrow> int) \<Rightarrow> maze \<Rightarrow> nat \<Rightarrow> nat \<Rightarrow> (nat \<Rightarrow> nat \<Rightarrow> int) \<times> maze" where
  "solveInit cnt0 maze nR nC =
     fold (\<lambda>r st. fold (\<lambda>c (cnt, maze).
             (set_cell cnt r c (-1), set_cell maze r c (maze r c AND NOT VISITED)))
           [0..<nC] st)
       [0..<nR] (cnt0, maze)"

definition labelDistances :: "(nat \<Rightarrow> nat \<Rightarrow> int) \<Rightarrow> maze \<Rightarrow> nat \<Rightarrow> nat \<Rightarrow> bfs_state" where
  "labelDistances cnt0 maze nR nC =
     (let (cnt, maze1) = solveInit cnt0 maze nR nC;
          endR = (nR + 2 ^ 32 - 1) mod 2 ^ 32;
          endC = (nC + 2 ^ 32 - 1) mod 2 ^ 32;
          endCellIdx = endR * nC + endC
      in bfs_loop maze1 nR nC (set_cell cnt endR endC 0, [endCellIdx], [endCellIdx]))"

definition solveMazeBFS :: "(nat \<Rightarrow> nat \<Rightarrow> int) \<Rightarrow> maze \<Rightarrow> nat \<Rightarrow> nat \<Rightarrow> solve_status \<times> maze" where
  "solveMazeBFS cnt0 maze nR nC =
     (let (cnt1, maze1) = solveInit cnt0 maze nR nC;
          startR = 0;
          startC = 0;
          endR = (nR + 2 ^ 32 - 1) mod 2 ^ 32;
          endC = (nC + 2 ^ 32 - 1) mod 2 ^ 32
      in if endR \<ge> nR \<or> endC \<ge> nC then (InvalidEnd, maze1)
         else
           let (cnt, q, pushed) = labelDistances cnt0 maze nR nC
           in if cnt startR startC = -1 then (NoSolution, maze1)
              else trace_loop cnt nR nC
                     (set_cell maze1 startR startC (maze1 startR startC OR VISITED))
                     startR startC)"

section \<open>Specification predicates\<close>

definition no_path_flags :: "maze \<Rightarrow> nat \<Rightarrow> nat \<Rightarrow> bool" where
  "no_path_flags maze nR nC = (\<forall>r<nR. \<forall>c<nC. maze r c AND VISITED = 0)"

definition same_walls :: "maze \<Rightarrow> maze \<Rightarrow> bool" where
  "same_walls maze maze' = (\<forall>r c. maze' r c AND ALL_WALLS = maze r c AND ALL_WALLS)"

text \<open>
  A candidate denotes the undirected edge between two cells when it names one of them
  and \<open>getNeighbor\<close> from there, in the candidate's direction, yields the other.
\<close>

definition denotes :: "nat \<Rightarrow> nat \<Rightarrow> Wall \<Rightarrow> nat \<times> nat \<Rightarrow> nat \<times> nat \<Rightarrow> bool" where
  "denotes nR nC w a b =
     (let cell = (wall_r w, wall_c w);
          nb = getNeighbor (wall_r w) (wall_c w) (wall_direction w) nR nC
      in (cell = a \<and> nb = Some b) \<or> (cell = b \<and> nb = Some a))"

text \<open>The three directions the enumeration uses.\<close>

definition candidate_dirs :: "u8 set" where
  "candidate_dirs = {WALL_DOWN, WALL_UP_RIGHT, WALL_DOWN_RIGHT}"

text \<open>
  The open-passage graph of a grid: a directed edge from a cell of the grid to the
  neighbor in a direction whose wall bit is clear in the cell. This is the test the
  solver makes before it moves (\<open>(maze[r][c] & dir) == 0\<close>, then \<open>getNeighbor\<close>).
\<close>

definition passages :: "maze \<Rightarrow> nat \<Rightarrow> nat \<Rightarrow> ((nat \<times> nat) \<times> (nat \<times> nat)) set" where
  "passages maze nR nC =
     {((r, c), p). r < nR \<and> c < nC \<and>
        (\<exists>dir \<in> set directions. maze r c AND dir = 0 \<and> getNeighbor r c dir nR nC = Some p)}"

text \<open>
  Wall symmetry: for a cell \<open>A\<close> of the grid and its neighbor \<open>B\<close> in direction \<open>dir\<close>,
  the wall bit \<open>dir\<close> is set in \<open>A\<close> exactly when the opposite bit is set in \<open>B\<close>.
\<close>

definition wall_symmetric :: "maze \<Rightarrow> nat \<Rightarrow> nat \<Rightarrow> bool" where
  "wall_symmetric maze nR nC =
     (\<forall>r<nR. \<forall>c<nC. \<forall>dir \<in> set directions. \<forall>r2 c2.
        getNeighbor r c dir nR nC = Some (r2, c2) \<longrightarrow>
        (maze r c AND dir \<noteq> 0) = (maze r2 c2 AND getOppositeWall dir \<noteq> 0))"

text \<open>The boundary is closed: where a cell has no neighbor, its wall bit is set.\<close>

definition boundary_closed :: "maze \<Rightarrow> nat \<Rightarrow> nat \<Rightarrow> bool" where
  "boundary_closed maze nR nC =
     (\<forall>r<nR. \<forall>c<nC. \<forall>dir \<in> set directions.
        getNeighbor r c dir nR nC = None \<longrightarrow> maze r c AND dir \<noteq> 0)"

text \<open>
  A symmetric relation is acyclic as an undirected graph when each of its edges is a
  bridge: without the edge (in both directions) its end points are not connected.
  \<open>undirected\<close> is the set of undirected edges, each a set of two end points.
\<close>

definition forest :: "('a \<times> 'a) set \<Rightarrow> bool" where
  "forest E = (\<forall>(u, v) \<in> E. (u, v) \<notin> (E - {(u, v), (v, u)})\<^sup>*)"

definition undirected :: "('a \<times> 'a) set \<Rightarrow> 'a set set" where
  "undirected E = (\<lambda>(a, b). {a, b}) ` E"

text \<open>Every two cells of the grid are connected by open passages.\<close>

definition connected_passages :: "maze \<Rightarrow> nat \<Rightarrow> nat \<Rightarrow> bool" where
  "connected_passages maze nR nC =
     (\<forall>r<nR. \<forall>c<nC. \<forall>r'<nR. \<forall>c'<nC. ((r, c), (r', c')) \<in> (passages maze nR nC)\<^sup>*)"

text \<open>
  The passages form a spanning tree of the grid: connected, acyclic, and with
  \<open>nR * nC - 1\<close> undirected edges (removed walls).
\<close>

definition spanning_tree :: "maze \<Rightarrow> nat \<Rightarrow> nat \<Rightarrow> bool" where
  "spanning_tree maze nR nC =
     (connected_passages maze nR nC \<and> forest (passages maze nR nC) \<and>
      card (undirected (passages maze nR nC)) = nR * nC - 1)"

text \<open>
  The state of \<open>generateMaze\<close>'s loop when the first \<open>n\<close> candidates of the shuffled
  list have been considered (the final state, once the loop has left by its \<open>break\<close>).
\<close>

definition generation_prefix :: "maze \<Rightarrow> nat \<Rightarrow> nat \<Rightarrow> (Wall list \<Rightarrow> Wall list) \<Rightarrow> nat \<Rightarrow> (maze \<times> DSU \<times> nat) option" where
  "generation_prefix maze nR nC rng n =
     (let totalCells = (nR * nC) mod 2 ^ 32
      in removeWalls nR nC ((totalCells + 2 ^ 32 - 1) mod 2 ^ 32)
           (take n (rng (internalWalls nR nC)))
           (initMaze maze nR nC, DSU_new totalCells, 0))"

text \<open>Two grids agree on every cell of the \<open>nR \<times> nC\<close> grid.\<close>

definition grid_eq :: "nat \<Rightarrow> nat \<Rightarrow> maze \<Rightarrow> maze \<Rightarrow> bool" where
  "grid_eq nR nC maze maze' = (\<forall>r<nR. \<forall>c<nC. maze r c = maze' r c)"

text \<open>
  The least number of steps of a walk from \<open>a\<close> to \<open>b\<close> in the graph \<open>E\<close>.
\<close>

definition shortest_hops :: "('a \<times> 'a) set \<Rightarrow> 'a \<Rightarrow> 'a \<Rightarrow> nat \<Rightarrow> bool" where
  "shortest_hops E a b n = ((a, b) \<in> E ^^ n \<and> (\<forall>m. (a, b) \<in> E ^^ m \<longrightarrow> n \<le> m))"

text \<open>
  The distance table after labeling: the goal has distance 0, no cell was pushed twice,
  a cell that the goal reaches through open passages has the least number of hops of a
  walk from the goal as its distance (which is the least number of hops to the goal when
  the walls are symmetric), and every other cell keeps \<open>-1\<close>.
\<close>

definition distances_correct :: "maze \<Rightarrow> nat \<Rightarrow> nat \<Rightarrow> bfs_state \<Rightarrow> bool" where
  "distances_correct maze nR nC st =
     (case st of (cnt, q, pushed) \<Rightarrow>
        cnt (nR - 1) (nC - 1) = 0 \<and> distinct pushed \<and>
        (\<forall>r<nR. \<forall>c<nC.
           if ((nR - 1, nC - 1), (r, c)) \<in> (passages maze nR nC)\<^sup>*
           then 0 \<le> cnt r c \<and>
                shortest_hops (passages maze nR nC) (nR - 1, nC - 1) (r, c) (nat (cnt r c)) \<and>
                (wall_symmetric maze nR nC \<longrightarrow>
                   shortest_hops (passages maze nR nC) (r, c) (nR - 1, nC - 1) (nat (cnt r c)))
           else cnt r c = -1))"

section \<open>Definitions used in the proofs\<close>

text \<open>
  \<open>root_of l i r\<close>: following the parent links of \<open>l\<close> from \<open>i\<close> ends at the root \<open>r\<close>.
  A parent vector is well formed when every index has a root.
\<close>

inductive root_of :: "nat list \<Rightarrow> nat \<Rightarrow> nat \<Rightarrow> bool" for l where
  root: "i < length l \<Longrightarrow> l ! i = i \<Longrightarrow> root_of l i i"
| step: "i < length l \<Longrightarrow> l ! i \<noteq> i \<Longrightarrow> root_of l (l ! i) r \<Longrightarrow> root_of l i r"

definition dsu_inv :: "nat list \<Rightarrow> bool" where
  "dsu_inv l = (\<forall>i<length l. \<exists>r. root_of l i r)"

definition same_root :: "nat list \<Rightarrow> nat \<Rightarrow> nat \<Rightarrow> bool" where
  "same_root l i j = (\<exists>r. root_of l i r \<and> root_of l j r)"

definition roots :: "nat list \<Rightarrow> nat set" where
  "roots l = {i. root_of l i i}"

text \<open>The grid after the two assignments that remove one wall.\<close>

definition clear_wall :: "maze \<Rightarrow> nat \<Rightarrow> nat \<Rightarrow> u8 \<Rightarrow> nat \<Rightarrow> nat \<Rightarrow> maze" where
  "clear_wall maze r1 c1 d r2 c2 =
     (let maze1 = set_cell maze r1 c1 (maze r1 c1 AND NOT d)
      in set_cell maze1 r2 c2 (maze1 r2 c2 AND NOT (getOppositeWall d)))"

text \<open>One iteration of the loop of \<open>generateMaze\<close>, past the \<open>break\<close> test.\<close>

definition remove_step :: "nat \<Rightarrow> nat \<Rightarrow> Wall \<Rightarrow> maze \<times> DSU \<times> nat \<Rightarrow> (maze \<times> DSU \<times> nat) option" where
  "remove_step nR nC wall st =
     (case st of (maze, dsu, wallsRemoved) \<Rightarrow>
        (case getNeighbor (wall_r wall) (wall_c wall) (wall_direction wall) nR nC of
           None \<Rightarrow> Some (maze, dsu, wallsRemoved)
         | Some (r2, c2) \<Rightarrow>
            (case DSU_find dsu (wall_r wall * nC + wall_c wall) of
               None \<Rightarrow> None
             | Some (root1, dsu1) \<Rightarrow>
                (case DSU_find dsu1 (r2 * nC + c2) of
                   None \<Rightarrow> None
                 | Some (root2, dsu2) \<Rightarrow>
                     if root1 \<noteq> root2 then
                       (case DSU_unite dsu2 (wall_r wall * nC + wall_c wall) (r2 * nC + c2) of
                          None \<Rightarrow> None
                        | Some dsu3 \<Rightarrow>
                            Some (clear_wall maze (wall_r wall) (wall_c wall)
                                    (wall_direction wall) r2 c2, dsu3, wallsRemoved + 1))
                     else Some (maze, dsu2, wallsRemoved)))))"

text \<open>
  The invariant of the loop: the union-find structure is well formed and its sets are
  the connected components of the passages; the walls are symmetric, the boundary is
  closed and the passages are acyclic; \<open>wallsRemoved\<close> counts the passages, and each
  removal merges two components.
\<close>

definition gen_inv :: "nat \<Rightarrow> nat \<Rightarrow> maze \<times> DSU \<times> nat \<Rightarrow> bool" where
  "gen_inv nR nC st =
     (case st of (maze, dsu, wallsRemoved) \<Rightarrow>
        length (parent dsu) = nR * nC \<and> dsu_inv (parent dsu) \<and>
        wall_symmetric maze nR nC \<and> boundary_closed maze nR nC \<and>
        (\<forall>r c r' c'. r < nR \<and> c < nC \<and> r' < nR \<and> c' < nC \<longrightarrow>
           (((r, c), (r', c')) \<in> (passages maze nR nC)\<^sup>*) =
           same_root (parent dsu) (r * nC + c) (r' * nC + c')) \<and>
        forest (passages maze nR nC) \<and>
        card (undirected (passages maze nR nC)) = wallsRemoved \<and>
        card (roots (parent dsu)) + wallsRemoved = nR * nC)"

text \<open>The two cells of a candidate are connected.\<close>

definition joined :: "nat \<Rightarrow> nat \<Rightarrow> maze \<Rightarrow> Wall \<Rightarrow> bool" where
  "joined nR nC maze w =
     (\<forall>p. getNeighbor (wall_r w) (wall_c w) (wall_direction w) nR nC = Some p \<longrightarrow>
          ((wall_r w, wall_c w), p) \<in> (passages maze nR nC)\<^sup>*)"

text \<open>A change of the grid that treats every cell on its own.\<close>

definition cellwise :: "(maze \<Rightarrow> maze) \<Rightarrow> bool" where
  "cellwise F = (\<forall>m m' r c. m r c = m' r c \<longrightarrow> F m r c = F m' r c)"

text \<open>
  The distance label of a cell, and the index \<open>r * nC + c\<close> under which the queue holds it.
\<close>

definition label :: "(nat \<Rightarrow> nat \<Rightarrow> int) \<Rightarrow> nat \<times> nat \<Rightarrow> int" where
  "label cnt v = cnt (fst v) (snd v)"

definition idx :: "nat \<Rightarrow> nat \<times> nat \<Rightarrow> nat" where
  "idx nC v = fst v * nC + snd v"

definition cell_of :: "nat \<Rightarrow> nat \<Rightarrow> nat \<times> nat" where
  "cell_of nC i = (i div nC, i mod nC)"

text \<open>
  A cell of the \<open>nR \<times> nC\<close> grid.
\<close>

definition in_grid :: "nat \<Rightarrow> nat \<Rightarrow> nat \<times> nat \<Rightarrow> bool" where
  "in_grid nR nC v = (fst v < nR \<and> snd v < nC)"

text \<open>
  The cells that the scan of the directions \<open>ds\<close> from \<open>u\<close> reaches through an open wall.
\<close>

definition succs :: "maze \<Rightarrow> nat \<Rightarrow> nat \<Rightarrow> nat \<times> nat \<Rightarrow> u8 list \<Rightarrow> (nat \<times> nat) set" where
  "succs maze nR nC u ds =
     {w. \<exists>dir \<in> set ds. maze (fst u) (snd u) AND dir = 0 \<and>
                        getNeighbor (fst u) (snd u) dir nR nC = Some w}"

text \<open>
  What the scan of the directions \<open>ds\<close> from the cell \<open>u\<close> does to the state of the
  search: labelled cells keep their label, the unlabelled neighbours of \<open>u\<close> get the label
  of \<open>u\<close> plus one, and exactly the newly labelled cells are appended to the queue.
\<close>

definition scan_result :: "maze \<Rightarrow> nat \<Rightarrow> nat \<Rightarrow> nat \<times> nat \<Rightarrow> u8 list \<Rightarrow> bfs_state \<Rightarrow> bfs_state \<Rightarrow> bool" where
  "scan_result maze nR nC u ds st st' =
     (case (st, st') of ((cnt, q, pushed), (cnt', q', pushed')) \<Rightarrow>
        (\<forall>v. label cnt v \<noteq> -1 \<longrightarrow> label cnt' v = label cnt v) \<and>
        (\<forall>v. label cnt' v \<noteq> -1 \<longrightarrow>
             label cnt v \<noteq> -1 \<or> (v \<in> succs maze nR nC u ds \<and> label cnt' v = label cnt u + 1)) \<and>
        (\<forall>w \<in> succs maze nR nC u ds. label cnt' w \<noteq> -1) \<and>
        (\<exists>new. q' = q @ new \<and> pushed' = pushed @ new \<and> distinct new \<and>
           (\<forall>i \<in> set new. \<exists>v. i = idx nC v \<and> in_grid nR nC v \<and>
                                label cnt v = -1 \<and> label cnt' v \<noteq> -1) \<and>
           (\<forall>v. label cnt v = -1 \<and> label cnt' v \<noteq> -1 \<longrightarrow> idx nC v \<in> set new)))"

text \<open>
  The invariant of the breadth-first loop: every label is the length of a walk from the
  goal, the labelled cells are the cells pushed so far, each pushed once, the queue is
  sorted by label, no label exceeds the label of the head of the queue by more than one,
  and the neighbours of a cell that has left the queue are labelled.
\<close>

definition bfs_inv :: "maze \<Rightarrow> nat \<Rightarrow> nat \<Rightarrow> bfs_state \<Rightarrow> bool" where
  "bfs_inv maze nR nC st =
     (case st of (cnt, q, pushed) \<Rightarrow>
        label cnt (nR - 1, nC - 1) = 0 \<and>
        (\<forall>v. in_grid nR nC v \<and> label cnt v \<noteq> -1 \<longrightarrow>
             0 \<le> label cnt v \<and>
             ((nR - 1, nC - 1), v) \<in> passages maze nR nC ^^ nat (label cnt v)) \<and>
        (\<forall>i \<in> set pushed. i < nR * nC \<and> label cnt (cell_of nC i) \<noteq> -1) \<and>
        (\<forall>v. in_grid nR nC v \<and> label cnt v \<noteq> -1 \<longrightarrow> idx nC v \<in> set pushed) \<and>
        distinct pushed \<and> distinct q \<and> set q \<subseteq> set pushed \<and>
        sorted (map (\<lambda>i. label cnt (cell_of nC i)) q) \<and>
        (\<forall>v. q \<noteq> [] \<and> in_grid nR nC v \<and> label cnt v \<noteq> -1 \<longrightarrow>
             label cnt v \<le> label cnt (cell_of nC (hd q)) + 1) \<and>
        (\<forall>u w. in_grid nR nC u \<and> label cnt u \<noteq> -1 \<and> idx nC u \<notin> set q \<and>
               (u, w) \<in> passages maze nR nC \<longrightarrow>
               label cnt w \<noteq> -1 \<and> label cnt w \<le> label cnt u + 1))"

text \<open>
  A simple path from \<open>a\<close> to \<open>b\<close> in the graph \<open>E\<close>: a list of distinct vertices, each joined
  to the next by an edge.
\<close>

definition simple_path :: "('a \<times> 'a) set \<Rightarrow> 'a \<Rightarrow> 'a \<Rightarrow> 'a list \<Rightarrow> bool" where
  "simple_path E a b p =
     (p \<noteq> [] \<and> hd p = a \<and> last p = b \<and> distinct p \<and> successively (\<lambda>x y. (x, y) \<in> E) p)"

text \<open>
  The result of path reconstruction, for the distance table \<open>cnt\<close>: the solver returns
  normally, and there is a simple open-passage path \<open>p\<close> from the start \<open>(0, 0)\<close> to the
  goal \<open>(nR - 1, nC - 1)\<close> of \<open>cnt 0 0 + 1\<close> cells such that the cells of the grid with the
  \<open>VISITED\<close> flag set are exactly the cells of \<open>p\<close>, the distance decreases by one from
  each cell of \<open>p\<close> to the next and is 0 at its end, and, when the passages are acyclic,
  \<open>p\<close> is the only simple open-passage path from the start to the goal.
\<close>

definition path_reconstructed :: "maze \<Rightarrow> nat \<Rightarrow> nat \<Rightarrow> (nat \<Rightarrow> nat \<Rightarrow> int) \<Rightarrow> solve_status \<times> maze \<Rightarrow> bool" where
  "path_reconstructed maze nR nC cnt res =
     (fst res = Solved \<and>
      (\<exists>p. simple_path (passages maze nR nC) (0, 0) (nR - 1, nC - 1) p \<and>
           length p = nat (cnt 0 0) + 1 \<and>
           {(r, c). r < nR \<and> c < nC \<and> snd res r c AND VISITED \<noteq> 0} = set p \<and>
           successively (\<lambda>x y. label cnt y = label cnt x - 1) p \<and>
           label cnt (last p) = 0 \<and>
           (forest (passages maze nR nC) \<longrightarrow>
              (\<forall>p'. simple_path (passages maze nR nC) (0, 0) (nR - 1, nC - 1) p' \<longrightarrow> p' = p))))"

section \<open>Example inputs\<close>

text \<open>
  A \<open>1 \<times> 2\<close> array whose walls are not symmetric: the goal cell \<open>(0, 1)\<close> has its
  \<open>WALL_UP_LEFT\<close> bit clear (\<open>0x1F\<close>), the start cell \<open>(0, 0)\<close> on the other side of that
  wall has all six wall bits set (\<open>0x3F\<close>). \<open>generateMaze\<close> never produces such a grid.
\<close>

definition one_way_grid :: maze where
  "one_way_grid r c = (if c = 1 then 0x1F else 0x3F)"

text \<open>A prior content of the \<open>count\<close> array.\<close>

definition zero_count :: "nat \<Rightarrow> nat \<Rightarrow> int" where
  "zero_count r c = 0"

section \<open>The initialisation loops in closed form\<close>

lemma fold_cols:
  "fold (\<lambda>c a. set_cell a r c (g (a r c))) [0..<n] a =
     (\<lambda>r' c'. if r' = r \<and> c' < n then g (a r' c') else a r' c')"
proof (induction n)
  case 0
  show ?case by simp
next
  case (Suc n)
  have "fold (\<lambda>c a. set_cell a r c (g (a r c))) [0..<Suc n] a =
      set_cell (fold (\<lambda>c a. set_cell a r c (g (a r c))) [0..<n] a) r n
        (g (fold (\<lambda>c a. set_cell a r c (g (a r c))) [0..<n] a r n))"
    by simp
  also have "\<dots> = (\<lambda>r' c'. if r' = r \<and> c' < Suc n then g (a r' c') else a r' c')"
    unfolding Suc by (auto simp: fun_eq_iff set_cell_apply less_Suc_eq)
  finally show ?case .
qed

lemma fold_rows:
  "fold (\<lambda>r a. fold (\<lambda>c a. set_cell a r c (g (a r c))) [0..<nC] a) [0..<n] a =
     (\<lambda>r' c'. if r' < n \<and> c' < nC then g (a r' c') else a r' c')"
proof -
  define inner where "inner = (\<lambda>r a. fold (\<lambda>c a. set_cell a r c (g (a r c))) [0..<nC] a)"
  have inner_eq: "inner r a = (\<lambda>r' c'. if r' = r \<and> c' < nC then g (a r' c') else a r' c')"
    for r a by (simp add: inner_def fold_cols)
  have "fold inner [0..<n] a = (\<lambda>r' c'. if r' < n \<and> c' < nC then g (a r' c') else a r' c')"
  proof (induction n)
    case 0
    show ?case by simp
  next
    case (Suc n)
    have "fold inner [0..<Suc n] a = inner n (fold inner [0..<n] a)" by simp
    also have "\<dots> = (\<lambda>r' c'. if r' < Suc n \<and> c' < nC then g (a r' c') else a r' c')"
      unfolding Suc inner_eq by (auto simp: fun_eq_iff less_Suc_eq)
    finally show ?case .
  qed
  then show ?thesis by (simp add: inner_def)
qed

lemma initMaze_apply:
  "initMaze maze nR nC r c = (if r < nR \<and> c < nC then ALL_WALLS else maze r c)"
  using fold_rows[of "\<lambda>_. ALL_WALLS" nC nR maze] by (simp add: initMaze_def)

lemma fold_pair:
  "fold (\<lambda>x (a, b). (F x a, G x b)) xs (a, b) = (fold F xs a, fold G xs b)"
  by (induction xs arbitrary: a b) auto

lemma fold_pair':
  "fold (\<lambda>x st. (F x (fst st), G x (snd st))) xs st = (fold F xs (fst st), fold G xs (snd st))"
  by (induction xs arbitrary: st) auto

lemma solveInit_eq:
  "solveInit cnt0 maze nR nC =
     (\<lambda>r c. if r < nR \<and> c < nC then -1 else cnt0 r c,
      \<lambda>r c. if r < nR \<and> c < nC then maze r c AND NOT VISITED else maze r c)"
proof -
  have inner: "(\<lambda>r st. fold (\<lambda>c (cnt, maze).
             (set_cell cnt r c (-1::int), set_cell maze r c (maze r c AND NOT VISITED)))
           [0..<nC] st) =
     (\<lambda>r st. (fold (\<lambda>c a. set_cell a r c ((\<lambda>_. -1) (a r c))) [0..<nC] (fst st),
               fold (\<lambda>c a. set_cell a r c ((\<lambda>v. v AND NOT VISITED) (a r c))) [0..<nC] (snd st)))"
    (is "?L = ?R")
  proof (intro ext)
    fix r :: nat and st :: "(nat \<Rightarrow> nat \<Rightarrow> int) \<times> maze"
    obtain a b where st: "st = (a, b)" by (cases st)
    show "?L r st = ?R r st"
      unfolding st fst_conv snd_conv
      by (rule fold_pair)
  qed
  have l: "fold (\<lambda>r a. fold (\<lambda>c a. set_cell a r c (-1)) [0..<nC] a) [0..<nR] cnt0 =
      (\<lambda>r c. if r < nR \<and> c < nC then -1 else cnt0 r c)"
    using fold_rows[of "\<lambda>_. -1" nC nR cnt0] by simp
  have r: "fold (\<lambda>r a. fold (\<lambda>c a. set_cell a r c (a r c AND NOT VISITED)) [0..<nC] a)
        [0..<nR] maze =
      (\<lambda>r c. if r < nR \<and> c < nC then maze r c AND NOT VISITED else maze r c)"
    using fold_rows[of "\<lambda>v. v AND NOT VISITED" nC nR maze] by simp
  show ?thesis
    unfolding solveInit_def inner
    using fold_pair'[of "\<lambda>r a. fold (\<lambda>c a. set_cell a r c (-1)) [0..<nC] a"
        "\<lambda>r a. fold (\<lambda>c a. set_cell a r c (a r c AND NOT VISITED)) [0..<nC] a"
        "[0..<nR]" "(cnt0, maze)"]
    by (simp add: l r)
qed

lemma fold_append_concat:
  "fold (\<lambda>x ws. ws @ f x) xs acc = acc @ concat (map f xs)"
  by (induction xs arbitrary: acc) auto

lemma internalWalls_eq:
  "internalWalls nR nC = concat (map (\<lambda>r. concat (map (cellWalls nR nC r) [0..<nC])) [0..<nR])"
  by (simp add: internalWalls_def fold_append_concat)

section \<open>What the solver leaves unchanged\<close>

lemma or_and_not_same: "(x OR v) AND NOT v = x AND NOT (v :: u8)"
  by (auto simp: bit_eq_iff bit_and_iff bit_or_iff bit_not_iff)

lemma not_VISITED: "NOT VISITED = ALL_WALLS OR DEAD_END"
  by (simp add: VISITED_def ALL_WALLS_def DEAD_END_def)

lemma and_ALL_WALLS_frame:
  "x AND NOT VISITED = y AND NOT VISITED \<Longrightarrow> x AND ALL_WALLS = y AND ALL_WALLS"
proof -
  assume a: "x AND NOT VISITED = y AND NOT VISITED"
  have m: "ALL_WALLS = NOT VISITED AND ALL_WALLS"
    by (simp add: VISITED_def ALL_WALLS_def)
  have "x AND ALL_WALLS = (x AND NOT VISITED) AND ALL_WALLS"
    by (subst m) (simp add: and.assoc)
  also have "\<dots> = (y AND NOT VISITED) AND ALL_WALLS" by (simp only: a)
  also have "\<dots> = y AND ALL_WALLS" by (subst (2) m) (simp add: and.assoc)
  finally show ?thesis .
qed

lemma trace_loop_frame:
  "snd (trace_loop cnt nR nC maze r c) r' c' AND NOT VISITED = maze r' c' AND NOT VISITED"
proof (induction cnt nR nC maze r c rule: trace_loop.induct)
  case (1 cnt nR nC maze currentR currentC)
  show ?case
  proof (cases "cnt currentR currentC \<noteq> 0")
    case False
    then show ?thesis by (subst trace_loop.simps) simp
  next
    case True
    show ?thesis
    proof (cases "find_next maze cnt nR nC currentR currentC directions")
      case None
      with True show ?thesis by (subst trace_loop.simps) simp
    next
      case (Some p)
      obtain nr nc where p: "p = (nr, nc)" by (cases p)
      have "snd (trace_loop cnt nR nC maze currentR currentC) =
          snd (trace_loop cnt nR nC (set_cell maze nr nc (maze nr nc OR VISITED)) nr nc)"
        using True Some p by (subst trace_loop.simps) simp
      moreover have "set_cell maze nr nc (maze nr nc OR VISITED) r' c' AND NOT VISITED =
          maze r' c' AND NOT VISITED"
        by (simp add: set_cell_apply or_and_not_same)
      ultimately show ?thesis
        using "1.IH"[OF True Some[unfolded p] refl] by simp
    qed
  qed
qed

lemma solveInit_frame:
  "snd (solveInit cnt0 maze nR nC) r c AND NOT VISITED = maze r c AND NOT VISITED"
  by (simp add: solveInit_eq and.assoc)

lemma solveMazeBFS_frame:
  "snd (solveMazeBFS cnt0 maze nR nC) r c AND NOT VISITED = maze r c AND NOT VISITED"
proof -
  obtain cnt1 maze1 where init: "solveInit cnt0 maze nR nC = (cnt1, maze1)"
    by (cases "solveInit cnt0 maze nR nC")
  have m1: "maze1 r c AND NOT VISITED = maze r c AND NOT VISITED" for r c
    using solveInit_frame[of cnt0 maze nR nC r c] by (simp add: init)
  obtain cnt q pushed where lab: "labelDistances cnt0 maze nR nC = (cnt, q, pushed)"
    by (cases "labelDistances cnt0 maze nR nC")
  have m2: "set_cell maze1 0 0 (maze1 0 0 OR VISITED) r c AND NOT VISITED =
      maze r c AND NOT VISITED"
    using m1 by (simp add: set_cell_apply or_and_not_same)
  show ?thesis
    by (simp add: solveMazeBFS_def init lab Let_def m1 m2 trace_loop_frame)
qed

lemma end_cell_valid:
  assumes "1 \<le> nR" "nR \<le> MAX_ROWS"
  shows "(nR + 2 ^ 32 - 1) mod 2 ^ 32 = nR - 1"
proof -
  from assms have "nR + 2 ^ 32 - 1 = (nR - 1) + 1 * 2 ^ 32" by simp
  moreover from assms have "nR - 1 < 2 ^ 32" by (simp add: MAX_ROWS_def)
  ultimately show ?thesis by (simp only: mod_mult_self1 mod_less)
qed

section \<open>The candidate enumeration\<close>

lemma neighborOffset_inj:
  assumes "neighborOffset a b d1 = Some p" "neighborOffset a b d2 = Some p"
  shows "d1 = d2"
  using assms by (auto simp: neighborOffset_def split: if_splits)

lemma getNeighbor_inj:
  assumes "getNeighbor r c d1 nR nC = Some p" "getNeighbor r c d2 nR nC = Some p"
  shows "d1 = d2"
proof -
  let ?a = "static_cast_int r" and ?b = "static_cast_int c"
  from assms(1) obtain t1 where 1: "neighborOffset ?a ?b d1 = Some t1"
    "0 \<le> fst t1" "0 \<le> snd t1" "p = (nat (fst t1), nat (snd t1))"
    by (auto simp: getNeighbor_def Let_def split: option.splits if_splits)
  from assms(2) obtain t2 where 2: "neighborOffset ?a ?b d2 = Some t2"
    "0 \<le> fst t2" "0 \<le> snd t2" "p = (nat (fst t2), nat (snd t2))"
    by (auto simp: getNeighbor_def Let_def split: option.splits if_splits)
  from 1 2 have "t1 = t2" by (auto simp: prod_eq_iff)
  with 1(1) 2(1) show ?thesis using neighborOffset_inj by simp
qed

lemma getOppositeWall_invol:
  "dir \<in> set directions \<Longrightarrow> getOppositeWall (getOppositeWall dir) = dir"
  by (auto simp: directions_def getOppositeWall_def wall_defs)

lemma getOppositeWall_dir:
  "dir \<in> set directions \<Longrightarrow> getOppositeWall dir \<in> set directions"
  by (auto simp: directions_def getOppositeWall_def wall_defs)

lemma opposite_candidate:
  "dir \<in> set directions \<Longrightarrow> (getOppositeWall dir \<in> candidate_dirs) = (dir \<notin> candidate_dirs)"
  by (auto simp: directions_def getOppositeWall_def wall_defs candidate_dirs_def)

lemma set_cellWalls:
  "set (cellWalls nR nC r c) =
     {Wall r c d | d. d \<in> candidate_dirs \<and> getNeighbor r c d nR nC \<noteq> None}"
  by (auto simp: cellWalls_def candidate_dirs_def)

lemma distinct_cellWalls: "distinct (cellWalls nR nC r c)"
  by (simp add: cellWalls_def wall_defs)

lemma set_internalWalls:
  "set (internalWalls nR nC) =
     {Wall r c d | r c d. r < nR \<and> c < nC \<and> d \<in> candidate_dirs \<and> getNeighbor r c d nR nC \<noteq> None}"
  by (auto simp: internalWalls_eq set_cellWalls)

lemma distinct_concat_map:
  assumes "distinct xs" "\<And>x. x \<in> set xs \<Longrightarrow> distinct (f x)"
    "\<And>x y. x \<in> set xs \<Longrightarrow> y \<in> set xs \<Longrightarrow> x \<noteq> y \<Longrightarrow> set (f x) \<inter> set (f y) = {}"
  shows "distinct (concat (map f xs))"
  using assms
proof (induction xs)
  case Nil
  show ?case by simp
next
  case (Cons x xs)
  have "set (f x) \<inter> set (f y) = {}" if "y \<in> set xs" for y
    using Cons.prems(1) Cons.prems(3)[of x y] that by auto
  then have "set (f x) \<inter> \<Union> (set ` f ` set xs) = {}" by blast
  moreover have "distinct (concat (map f xs))"
    using Cons.prems by (intro Cons.IH) auto
  ultimately show ?case using Cons.prems(2)[of x] by simp
qed

lemma distinct_internalWalls: "distinct (internalWalls nR nC)"
  unfolding internalWalls_eq
proof (rule distinct_concat_map, goal_cases)
  case 1
  show ?case by simp
next
  case (2 r)
  show ?case
    by (rule distinct_concat_map) (auto simp: distinct_cellWalls set_cellWalls)
next
  case (3 r r')
  then show ?case by (auto simp: set_cellWalls)
qed

lemma denotes_cases:
  assumes "nR < 2 ^ 32" "nC < 2 ^ 32" "r < nR" "c < nC"
    and nb: "getNeighbor r c dir nR nC = Some (r2, c2)"
  shows "denotes nR nC w (r, c) (r2, c2) \<longleftrightarrow>
         w = Wall r c dir \<or> w = Wall r2 c2 (getOppositeWall dir)"
proof -
  have dir: "dir \<in> set directions" using nb by (rule getNeighbor_valid_dir)
  have rev_nb: "getNeighbor r2 c2 (getOppositeWall dir) nR nC = Some (r, c)"
    using nb assms(3,4,1,2) by (rule getNeighbor_opp)
  have b2: "r2 < nR" "c2 < nC" using nb getNeighbor_dims by blast+
  obtain wr wc wd where w: "w = Wall wr wc wd" by (cases w)
  show ?thesis
  proof
    assume "denotes nR nC w (r, c) (r2, c2)"
    then consider (fwd) "wr = r" "wc = c" "getNeighbor r c wd nR nC = Some (r2, c2)"
      | (bwd) "wr = r2" "wc = c2" "getNeighbor r2 c2 wd nR nC = Some (r, c)"
      by (auto simp: denotes_def w Let_def)
    then show "w = Wall r c dir \<or> w = Wall r2 c2 (getOppositeWall dir)"
    proof cases
      case fwd
      from fwd(3) nb have "wd = dir" by (rule getNeighbor_inj)
      with fwd show ?thesis by (simp add: w)
    next
      case bwd
      from bwd(3) rev_nb have "wd = getOppositeWall dir" by (rule getNeighbor_inj)
      with bwd show ?thesis by (simp add: w)
    qed
  next
    assume "w = Wall r c dir \<or> w = Wall r2 c2 (getOppositeWall dir)"
    then show "denotes nR nC w (r, c) (r2, c2)"
      using nb rev_nb by (auto simp: denotes_def Let_def)
  qed
qed


lemma mem_internalWalls:
  "Wall r c d \<in> set (internalWalls nR nC) \<longleftrightarrow>
     r < nR \<and> c < nC \<and> d \<in> candidate_dirs \<and> getNeighbor r c d nR nC \<noteq> None"
  by (auto simp: set_internalWalls)

lemma length_filter_one:
  assumes "distinct xs" "\<And>x. x \<in> set xs \<and> P x \<longleftrightarrow> x = y"
  shows "length (filter P xs) = 1"
proof -
  have "set (filter P xs) = {y}" using assms(2) by auto
  moreover have "distinct (filter P xs)" using assms(1) by simp
  ultimately have "card {y} = length (filter P xs)" using distinct_card by metis
  then show ?thesis by simp
qed

section \<open>Union-find: roots, path compression, linking\<close>

lemma root_of_bounds:
  "root_of l i r \<Longrightarrow> i < length l \<and> r < length l \<and> l ! r = r"
  by (induction rule: root_of.induct) auto

lemma root_of_det:
  "root_of l i r \<Longrightarrow> root_of l i r' \<Longrightarrow> r = r'"
proof (induction arbitrary: r' rule: root_of.induct)
  case (root i)
  from root.prems root.hyps show ?case by (cases rule: root_of.cases) auto
next
  case (step i r)
  from step.prems step.hyps(1,2) have "root_of l (l ! i) r'"
    by (cases rule: root_of.cases) auto
  then show ?case by (rule step.IH)
qed

lemma root_of_self:
  "r < length l \<Longrightarrow> l ! r = r \<Longrightarrow> root_of l r x \<longleftrightarrow> x = r"
  using root_of.root root_of_det by blast

text \<open>Path compression: pointing \<open>i\<close> at its own root changes no root.\<close>

lemma root_of_compress_fwd:
  assumes ir: "root_of l i r" and jx: "root_of l j x"
  shows "root_of (l[i := r]) j x"
  using jx
proof (induction rule: root_of.induct)
  case (root j)
  show ?case
  proof (cases "j = i")
    case True
    with ir root have "r = i" using root_of_self by blast
    with root True show ?thesis by (auto intro: root_of.root)
  next
    case False
    with root show ?thesis by (auto intro: root_of.root)
  qed
next
  case (step j x)
  show ?case
  proof (cases "j = i")
    case False
    with step show ?thesis by (auto intro: root_of.step)
  next
    case True
    have "root_of l i x" using step.hyps True by (auto intro: root_of.step)
    with ir have x: "x = r" using root_of_det by blast
    from ir have rb: "r < length l" "l ! r = r" using root_of_bounds by blast+
    with step.hyps(2) True have "r \<noteq> i" by auto
    with rb have "root_of (l[i := r]) r r" by (auto intro: root_of.root)
    with step.hyps(1) True \<open>r \<noteq> i\<close> show ?thesis
      unfolding x by (auto intro: root_of.step)
  qed
qed

lemma root_of_compress_bwd:
  assumes ir: "root_of l i r" and jx: "root_of (l[i := r]) j x"
  shows "root_of l j x"
  using jx
proof (induction rule: root_of.induct)
  case (root j)
  show ?case
  proof (cases "j = i")
    case True
    with root have "r = i" by auto
    with ir True show ?thesis by simp
  next
    case False
    with root show ?thesis by (auto intro: root_of.root)
  qed
next
  case (step j x)
  show ?case
  proof (cases "j = i")
    case False
    with step show ?thesis by (auto intro: root_of.step)
  next
    case True
    with step have "root_of l r x" by auto
    moreover from ir have "r < length l" "l ! r = r" using root_of_bounds by blast+
    ultimately have "x = r" using root_of_self by blast
    with ir True show ?thesis by simp
  qed
qed

lemma root_of_compress:
  "root_of l i r \<Longrightarrow> root_of (l[i := r]) j x \<longleftrightarrow> root_of l j x"
  using root_of_compress_fwd root_of_compress_bwd by blast

lemma DSU_find_correct:
  assumes "root_of (parent d) i r"
  shows "\<exists>d'. DSU_find d i = Some (r, d') \<and> length (parent d') = length (parent d) \<and>
              (\<forall>j x. root_of (parent d') j x \<longleftrightarrow> root_of (parent d) j x)"
  using assms
proof (induction rule: root_of.induct)
  case (root i)
  then show ?case by (subst DSU_find.simps) auto
next
  case (step i r)
  then obtain d1 where d1: "DSU_find d (parent d ! i) = Some (r, d1)"
    "length (parent d1) = length (parent d)"
    "\<And>j x. root_of (parent d1) j x \<longleftrightarrow> root_of (parent d) j x"
    by blast
  let ?d' = "d1\<lparr>parent := (parent d1)[i := r]\<rparr>"
  have find: "DSU_find d i = Some (r, ?d')"
    using step.hyps(1,2) d1(1) by (subst DSU_find.simps) simp
  have "root_of (parent d) i r" using step.hyps by (auto intro: root_of.step)
  then have "root_of (parent d1) i r" by (simp add: d1(3))
  then have "root_of (parent ?d') j x \<longleftrightarrow> root_of (parent d) j x" for j x
    using root_of_compress[of "parent d1" i r j x] by (simp add: d1(3))
  with find d1(2) show ?case by simp
qed

text \<open>Linking one root under another.\<close>

lemma root_of_link_fwd:
  assumes ri: "ri < length l" "l ! ri = ri" and rj: "rj < length l" "l ! rj = rj"
    and ne: "ri \<noteq> rj" and ky: "root_of l k y"
  shows "root_of (l[ri := rj]) k (if y = ri then rj else y)"
  using ky
proof (induction rule: root_of.induct)
  case (root k)
  have rjr: "root_of (l[ri := rj]) rj rj" using rj ne by (auto intro: root_of.root)
  show ?case
  proof (cases "k = ri")
    case True
    with ri ne rjr show ?thesis by (auto intro: root_of.step)
  next
    case False
    with root show ?thesis by (auto intro: root_of.root)
  qed
next
  case (step k y)
  from step.hyps(2) ri have "k \<noteq> ri" by auto
  with step show ?case by (auto intro: root_of.step)
qed

lemma root_of_link:
  assumes inv: "dsu_inv l"
    and ri: "ri < length l" "l ! ri = ri" and rj: "rj < length l" "l ! rj = rj"
    and ne: "ri \<noteq> rj"
  shows "root_of (l[ri := rj]) k x \<longleftrightarrow> (\<exists>y. root_of l k y \<and> x = (if y = ri then rj else y))"
proof
  assume "\<exists>y. root_of l k y \<and> x = (if y = ri then rj else y)"
  then show "root_of (l[ri := rj]) k x"
    using root_of_link_fwd[OF ri rj ne] by blast
next
  assume a: "root_of (l[ri := rj]) k x"
  then have "k < length l" using root_of_bounds by fastforce
  with inv obtain y where y: "root_of l k y" unfolding dsu_inv_def by blast
  from root_of_link_fwd[OF ri rj ne y] a have "x = (if y = ri then rj else y)"
    using root_of_det by blast
  with y show "\<exists>y. root_of l k y \<and> x = (if y = ri then rj else y)" by blast
qed

lemma DSU_unite_correct:
  assumes inv: "dsu_inv (parent d)"
    and i: "root_of (parent d) i ri" and j: "root_of (parent d) j rj" and ne: "ri \<noteq> rj"
  shows "\<exists>d'. DSU_unite d i j = Some d' \<and> length (parent d') = length (parent d) \<and>
     (\<forall>k x. root_of (parent d') k x \<longleftrightarrow>
            (\<exists>y. root_of (parent d) k y \<and> x = (if y = ri then rj else y)))"
proof -
  from DSU_find_correct[OF i] obtain d1 where d1: "DSU_find d i = Some (ri, d1)"
    "length (parent d1) = length (parent d)"
    "\<And>j x. root_of (parent d1) j x \<longleftrightarrow> root_of (parent d) j x"
    by blast
  from j have "root_of (parent d1) j rj" by (simp add: d1(3))
  from DSU_find_correct[OF this] obtain d2 where d2: "DSU_find d1 j = Some (rj, d2)"
    "length (parent d2) = length (parent d)"
    "\<And>j x. root_of (parent d2) j x \<longleftrightarrow> root_of (parent d) j x"
    using d1(2,3) by auto
  let ?d' = "d2\<lparr>parent := (parent d2)[ri := rj]\<rparr>"
  have inv2: "dsu_inv (parent d2)" using inv by (simp add: dsu_inv_def d2(2,3))
  from i j have "root_of (parent d2) i ri" "root_of (parent d2) j rj" by (simp_all add: d2(3))
  then have b: "ri < length (parent d2)" "parent d2 ! ri = ri"
    "rj < length (parent d2)" "parent d2 ! rj = rj"
    using root_of_bounds by blast+
  have "DSU_unite d i j = Some ?d'"
    using ne b(1) by (simp add: DSU_unite_def d1(1) d2(1))
  moreover have "root_of (parent ?d') k x \<longleftrightarrow>
      (\<exists>y. root_of (parent d) k y \<and> x = (if y = ri then rj else y))" for k x
    using root_of_link[OF inv2 b ne, of k x] by (simp add: d2(3))
  ultimately show ?thesis using d2(2) by simp
qed

lemma root_of_new: "root_of (parent (DSU_new n)) i r \<longleftrightarrow> i < n \<and> r = i"
proof -
  have "i < n \<Longrightarrow> root_of [0..<n] i i" by (auto intro: root_of.root)
  moreover have "root_of [0..<n] i r \<Longrightarrow> i < n \<and> r = i"
    by (induction rule: root_of.induct) auto
  ultimately show ?thesis by (auto simp: DSU_new_def)
qed

lemma dsu_inv_new: "dsu_inv (parent (DSU_new n))"
proof (unfold dsu_inv_def, intro allI impI)
  fix i
  assume "i < length (parent (DSU_new n))"
  then have "i < n" by (simp add: DSU_new_def)
  then have "root_of (parent (DSU_new n)) i i" by (simp add: root_of_new)
  then show "\<exists>r. root_of (parent (DSU_new n)) i r" ..
qed

section \<open>Adding an edge to a graph\<close>

lemma rtrancl_add_edge:
  "(x, y) \<in> (E \<union> {(a, b), (b, a)})\<^sup>* \<longleftrightarrow>
     (x, y) \<in> E\<^sup>* \<or> ((x, a) \<in> E\<^sup>* \<and> (b, y) \<in> E\<^sup>*) \<or> ((x, b) \<in> E\<^sup>* \<and> (a, y) \<in> E\<^sup>*)"
  (is "?L \<longleftrightarrow> ?R")
proof
  let ?E' = "E \<union> {(a, b), (b, a)}"
  have sub: "E\<^sup>* \<subseteq> ?E'\<^sup>*" by (rule rtrancl_mono) blast
  have ab: "(a, b) \<in> ?E'\<^sup>*" "(b, a) \<in> ?E'\<^sup>*" by blast+
  assume ?R
  then show ?L
  proof (elim disjE conjE)
    assume "(x, y) \<in> E\<^sup>*"
    then show ?L using sub by blast
  next
    assume "(x, a) \<in> E\<^sup>*" "(b, y) \<in> E\<^sup>*"
    then have "(x, a) \<in> ?E'\<^sup>*" "(b, y) \<in> ?E'\<^sup>*" using sub by blast+
    with ab(1) show ?L by (meson rtrancl_trans)
  next
    assume "(x, b) \<in> E\<^sup>*" "(a, y) \<in> E\<^sup>*"
    then have "(x, b) \<in> ?E'\<^sup>*" "(a, y) \<in> ?E'\<^sup>*" using sub by blast+
    with ab(2) show ?L by (meson rtrancl_trans)
  qed
next
  assume ?L
  then show ?R
  proof (induction rule: rtrancl_induct)
    case base
    show ?case by simp
  next
    case (step y z)
    from step.hyps(2) consider "(y, z) \<in> E" | "y = a" "z = b" | "y = b" "z = a" by auto
    then show ?case
    proof cases
      case 1
      with step.IH show ?thesis by (meson rtrancl.rtrancl_into_rtrancl)
    next
      case 2
      with step.IH show ?thesis by (meson rtrancl.rtrancl_refl rtrancl_trans)
    next
      case 3
      with step.IH show ?thesis by (meson rtrancl.rtrancl_refl rtrancl_trans)
    qed
  qed
qed

lemma forest_add_edge:
  assumes s: "sym E" and f: "forest E" and nab: "(a, b) \<notin> E\<^sup>*"
  shows "forest (E \<union> {(a, b), (b, a)})"
  unfolding forest_def
proof (intro ballI, clarify)
  fix u v
  let ?E' = "E \<union> {(a, b), (b, a)}"
  assume uv: "(u, v) \<in> ?E'" and cyc: "(u, v) \<in> (?E' - {(u, v), (v, u)})\<^sup>*"
  have symr: "sym (E\<^sup>*)" using s by (rule sym_rtrancl)
  have nba: "(b, a) \<notin> E\<^sup>*" using nab symr by (meson symD)
  have nE: "(a, b) \<notin> E" "(b, a) \<notin> E" using nab nba by blast+
  show False
  proof (cases "(u, v) \<in> E")
    case False
    with uv have "(u = a \<and> v = b) \<or> (u = b \<and> v = a)" by auto
    then have "?E' - {(u, v), (v, u)} \<subseteq> E" by auto
    then have "(?E' - {(u, v), (v, u)})\<^sup>* \<subseteq> E\<^sup>*" by (rule rtrancl_mono)
    with cyc have "(u, v) \<in> E\<^sup>*" by blast
    with \<open>(u = a \<and> v = b) \<or> (u = b \<and> v = a)\<close> nab nba show False by auto
  next
    case True
    then have vu: "(v, u) \<in> E" using s by (meson symD)
    let ?F = "E - {(u, v), (v, u)}"
    have "?E' - {(u, v), (v, u)} = ?F \<union> {(a, b), (b, a)}"
      using True vu nE by auto
    with cyc have "(u, v) \<in> (?F \<union> {(a, b), (b, a)})\<^sup>*" by simp
    then consider "(u, v) \<in> ?F\<^sup>*" | "(u, a) \<in> ?F\<^sup>*" "(b, v) \<in> ?F\<^sup>*"
      | "(u, b) \<in> ?F\<^sup>*" "(a, v) \<in> ?F\<^sup>*"
      unfolding rtrancl_add_edge by blast
    then show False
    proof cases
      case 1
      with f True show False unfolding forest_def by blast
    next
      case 2
      have "?F\<^sup>* \<subseteq> E\<^sup>*" by (rule rtrancl_mono) blast
      with 2 have "(u, a) \<in> E\<^sup>*" "(b, v) \<in> E\<^sup>*" by blast+
      with vu have "(b, a) \<in> E\<^sup>*"
        by (meson rtrancl.rtrancl_into_rtrancl rtrancl_trans)
      with nba show False by blast
    next
      case 3
      have "?F\<^sup>* \<subseteq> E\<^sup>*" by (rule rtrancl_mono) blast
      with 3 have "(u, b) \<in> E\<^sup>*" "(a, v) \<in> E\<^sup>*" by blast+
      with vu have "(a, b) \<in> E\<^sup>*"
        by (meson rtrancl.rtrancl_into_rtrancl rtrancl_trans)
      with nab show False by blast
    qed
  qed
qed

lemma undirected_add_edge:
  "undirected (E \<union> {(a, b), (b, a)}) = insert {a, b} (undirected E)"
  by (auto simp: undirected_def insert_commute)

lemma undirected_mem:
  "{a, b} \<in> undirected E \<longleftrightarrow> (a, b) \<in> E \<or> (b, a) \<in> E"
  by (auto simp: undirected_def doubleton_eq_iff)

lemma card_undirected_add_edge:
  assumes "finite E" "(a, b) \<notin> E" "(b, a) \<notin> E"
  shows "card (undirected (E \<union> {(a, b), (b, a)})) = Suc (card (undirected E))"
proof -
  have "finite (undirected E)" using assms(1) by (simp add: undirected_def)
  moreover have "{a, b} \<notin> undirected E" using assms(2,3) by (simp add: undirected_mem)
  ultimately show ?thesis unfolding undirected_add_edge by simp
qed

section \<open>Removing one wall\<close>

lemma not_dir_and_dir:
  "d \<in> set directions \<Longrightarrow> dir \<in> set directions \<Longrightarrow> dir \<noteq> d \<Longrightarrow> NOT d AND dir = dir"
  by (auto simp: directions_def wall_defs)

lemma clear_bit_test:
  assumes "d \<in> set directions" "dir \<in> set directions"
  shows "(m AND NOT d) AND dir = 0 \<longleftrightarrow> m AND dir = 0 \<or> dir = d"
proof (cases "dir = d")
  case True
  have "(m AND NOT d) AND d = m AND (NOT d AND d)" by (simp add: and.assoc)
  also have "\<dots> = 0" by simp
  finally show ?thesis using True by simp
next
  case False
  have "(m AND NOT d) AND dir = m AND (NOT d AND dir)" by (simp add: and.assoc)
  also have "\<dots> = m AND dir" using not_dir_and_dir[OF assms False] by simp
  finally show ?thesis using False by simp
qed

lemma clear_wall_cell:
  assumes "(r2, c2) \<noteq> (r1, c1)"
  shows "clear_wall maze r1 c1 d r2 c2 r c =
     (if (r, c) = (r1, c1) then maze r c AND NOT d
      else if (r, c) = (r2, c2) then maze r c AND NOT (getOppositeWall d) else maze r c)"
  using assms by (auto simp: clear_wall_def Let_def set_cell_apply)

lemma clear_wall_test:
  assumes nb: "getNeighbor r1 c1 d nR nC = Some (r2, c2)" and dir: "dir \<in> set directions"
  shows "clear_wall maze r1 c1 d r2 c2 r c AND dir = 0 \<longleftrightarrow>
      maze r c AND dir = 0 \<or> ((r, c) = (r1, c1) \<and> dir = d) \<or>
      ((r, c) = (r2, c2) \<and> dir = getOppositeWall d)"
proof -
  have d: "d \<in> set directions" using nb by (rule getNeighbor_valid_dir)
  then have e: "getOppositeWall d \<in> set directions" by (rule getOppositeWall_dir)
  have ne: "(r2, c2) \<noteq> (r1, c1)" using nb by (rule getNeighbor_neq)
  show ?thesis
    using ne clear_bit_test[OF d dir] clear_bit_test[OF e dir]
    by (auto simp: clear_wall_cell[OF ne])
qed

lemma passages_finite: "finite (passages maze nR nC)"
proof -
  have "passages maze nR nC \<subseteq> ({..<nR} \<times> {..<nC}) \<times> ({..<nR} \<times> {..<nC})"
    using getNeighbor_dims by (auto simp: passages_def)
  then show ?thesis by (rule finite_subset) simp
qed

lemma passages_in_grid:
  "((r, c), (r2, c2)) \<in> passages maze nR nC \<Longrightarrow> r < nR \<and> c < nC \<and> r2 < nR \<and> c2 < nC"
  using getNeighbor_dims by (auto simp: passages_def)

lemma passages_clear_wall:
  assumes dims: "nR < 2 ^ 32" "nC < 2 ^ 32" and a: "r1 < nR" "c1 < nC"
    and nb: "getNeighbor r1 c1 d nR nC = Some (r2, c2)"
  shows "passages (clear_wall maze r1 c1 d r2 c2) nR nC =
         passages maze nR nC \<union> {((r1, c1), (r2, c2)), ((r2, c2), (r1, c1))}"
proof -
  define maze2 where "maze2 = clear_wall maze r1 c1 d r2 c2"
  have d: "d \<in> set directions" using nb by (rule getNeighbor_valid_dir)
  then have e: "getOppositeWall d \<in> set directions" by (rule getOppositeWall_dir)
  have ne: "(r2, c2) \<noteq> (r1, c1)" using nb by (rule getNeighbor_neq)
  have b: "r2 < nR" "c2 < nC" using nb getNeighbor_dims by blast+
  have rev_nb: "getNeighbor r2 c2 (getOppositeWall d) nR nC = Some (r1, c1)"
    using nb a dims by (rule getNeighbor_opp)
  have test: "maze2 r c AND dir = 0 \<longleftrightarrow>
      maze r c AND dir = 0 \<or> ((r, c) = (r1, c1) \<and> dir = d) \<or>
      ((r, c) = (r2, c2) \<and> dir = getOppositeWall d)"
    if "dir \<in> set directions" for r c dir
    unfolding maze2_def using nb that by (rule clear_wall_test)
  show ?thesis
    unfolding maze2_def[symmetric]
  proof (intro set_eqI iffI)
    fix x
    assume x: "x \<in> passages maze2 nR nC"
    obtain r c p where xe: "x = ((r, c), p)" by (metis surj_pair)
    from x xe obtain dir where g: "r < nR" "c < nC" and dir: "dir \<in> set directions"
      and t: "maze2 r c AND dir = 0" and n: "getNeighbor r c dir nR nC = Some p"
      by (auto simp: passages_def)
    from t test[OF dir] consider "maze r c AND dir = 0"
      | "(r, c) = (r1, c1)" "dir = d" | "(r, c) = (r2, c2)" "dir = getOppositeWall d"
      by blast
    then have "((r, c), p) \<in> passages maze nR nC \<union> {((r1, c1), (r2, c2)), ((r2, c2), (r1, c1))}"
    proof cases
      case 1
      with g dir n show ?thesis by (auto simp: passages_def)
    next
      case 2
      with n nb show ?thesis by simp
    next
      case 3
      with n rev_nb show ?thesis by simp
    qed
    then show "x \<in> passages maze nR nC \<union> {((r1, c1), (r2, c2)), ((r2, c2), (r1, c1))}"
      by (simp only: xe)
  next
    fix x
    assume x: "x \<in> passages maze nR nC \<union> {((r1, c1), (r2, c2)), ((r2, c2), (r1, c1))}"
    obtain r c p where xe: "x = ((r, c), p)" by (metis surj_pair)
    from x xe consider "((r, c), p) \<in> passages maze nR nC"
      | "(r, c) = (r1, c1)" "p = (r2, c2)" | "(r, c) = (r2, c2)" "p = (r1, c1)"
      by blast
    then have "((r, c), p) \<in> passages maze2 nR nC"
    proof cases
      case 1
      then obtain dir where g: "r < nR" "c < nC" and dir: "dir \<in> set directions"
        and t: "maze r c AND dir = 0" and n: "getNeighbor r c dir nR nC = Some p"
        by (auto simp: passages_def)
      from t test[OF dir] have "maze2 r c AND dir = 0" by blast
      with g dir n show ?thesis by (auto simp: passages_def)
    next
      case 2
      have "maze2 r1 c1 AND d = 0" using test[OF d, of r1 c1] by simp
      with 2 a d nb show ?thesis by (auto simp: passages_def)
    next
      case 3
      have "maze2 r2 c2 AND getOppositeWall d = 0" using test[OF e, of r2 c2] by simp
      with 3 b e rev_nb show ?thesis by (auto simp: passages_def)
    qed
    then show "x \<in> passages maze2 nR nC" by (simp only: xe)
  qed
qed

lemma getOppositeWall_inj:
  assumes "d \<in> set directions" "e \<in> set directions" "getOppositeWall d = getOppositeWall e"
  shows "d = e"
  using assms getOppositeWall_invol by metis

lemma wall_symmetric_clear_wall:
  assumes dims: "nR < 2 ^ 32" "nC < 2 ^ 32" and a: "r1 < nR" "c1 < nC"
    and nb: "getNeighbor r1 c1 d nR nC = Some (r2, c2)"
    and sym: "wall_symmetric maze nR nC"
  shows "wall_symmetric (clear_wall maze r1 c1 d r2 c2) nR nC"
  unfolding wall_symmetric_def
proof (intro allI impI ballI)
  fix r c dir r' c'
  assume g: "r < nR" "c < nC" and dir: "dir \<in> set directions"
    and n: "getNeighbor r c dir nR nC = Some (r', c')"
  have d: "d \<in> set directions" using nb by (rule getNeighbor_valid_dir)
  have odir: "getOppositeWall dir \<in> set directions" using dir by (rule getOppositeWall_dir)
  have rev_nb: "getNeighbor r2 c2 (getOppositeWall d) nR nC = Some (r1, c1)"
    using nb a dims by (rule getNeighbor_opp)
  have rev_n: "getNeighbor r' c' (getOppositeWall dir) nR nC = Some (r, c)"
    using n g dims by (rule getNeighbor_opp)
  have old: "(maze r c AND dir = 0) = (maze r' c' AND getOppositeWall dir = 0)"
    using sym g dir n unfolding wall_symmetric_def by blast
  have 1: "((r, c) = (r1, c1) \<and> dir = d) \<longleftrightarrow>
           ((r', c') = (r2, c2) \<and> getOppositeWall dir = getOppositeWall d)"
  proof
    assume "(r, c) = (r1, c1) \<and> dir = d"
    with n nb show "(r', c') = (r2, c2) \<and> getOppositeWall dir = getOppositeWall d" by simp
  next
    assume h: "(r', c') = (r2, c2) \<and> getOppositeWall dir = getOppositeWall d"
    then have "dir = d" using getOppositeWall_inj[OF dir d] by simp
    with h rev_n rev_nb show "(r, c) = (r1, c1) \<and> dir = d" by simp
  qed
  have 2: "((r, c) = (r2, c2) \<and> dir = getOppositeWall d) \<longleftrightarrow>
           ((r', c') = (r1, c1) \<and> getOppositeWall dir = d)"
  proof
    assume "(r, c) = (r2, c2) \<and> dir = getOppositeWall d"
    with n rev_nb getOppositeWall_invol[OF d]
    show "(r', c') = (r1, c1) \<and> getOppositeWall dir = d" by simp
  next
    assume h: "(r', c') = (r1, c1) \<and> getOppositeWall dir = d"
    then have "dir = getOppositeWall d" using getOppositeWall_invol[OF dir] by simp
    with h rev_n nb show "(r, c) = (r2, c2) \<and> dir = getOppositeWall d" by simp
  qed
  show "(clear_wall maze r1 c1 d r2 c2 r c AND dir \<noteq> 0) =
        (clear_wall maze r1 c1 d r2 c2 r' c' AND getOppositeWall dir \<noteq> 0)"
    unfolding clear_wall_test[OF nb dir] clear_wall_test[OF nb odir] old
    using 1 2 by blast
qed

lemma boundary_closed_clear_wall:
  assumes dims: "nR < 2 ^ 32" "nC < 2 ^ 32" and a: "r1 < nR" "c1 < nC"
    and nb: "getNeighbor r1 c1 d nR nC = Some (r2, c2)"
    and bc: "boundary_closed maze nR nC"
  shows "boundary_closed (clear_wall maze r1 c1 d r2 c2) nR nC"
  unfolding boundary_closed_def
proof (intro allI impI ballI)
  fix r c dir
  assume g: "r < nR" "c < nC" and dir: "dir \<in> set directions"
    and n: "getNeighbor r c dir nR nC = None"
  have rev_nb: "getNeighbor r2 c2 (getOppositeWall d) nR nC = Some (r1, c1)"
    using nb a dims by (rule getNeighbor_opp)
  have "maze r c AND dir \<noteq> 0" using bc g dir n unfolding boundary_closed_def by blast
  moreover have "\<not> ((r, c) = (r1, c1) \<and> dir = d)" using n nb by auto
  moreover have "\<not> ((r, c) = (r2, c2) \<and> dir = getOppositeWall d)" using n rev_nb by auto
  ultimately show "clear_wall maze r1 c1 d r2 c2 r c AND dir \<noteq> 0"
    unfolding clear_wall_test[OF nb dir] by blast
qed

section \<open>The invariant of the generation loop\<close>

lemma removeWalls_Cons:
  "removeWalls nR nC t (wall # walls) (maze, dsu, k) =
     (if k \<ge> t then Some (maze, dsu, k)
      else Option.bind (remove_step nR nC wall (maze, dsu, k)) (removeWalls nR nC t walls))"
  by (simp add: remove_step_def clear_wall_def Let_def split: option.splits prod.splits)

lemma sym_passages:
  assumes dims: "nR < 2 ^ 32" "nC < 2 ^ 32" and s: "wall_symmetric maze nR nC"
  shows "sym (passages maze nR nC)"
proof (rule symI)
  fix x y
  assume xy: "(x, y) \<in> passages maze nR nC"
  obtain r c where x: "x = (r, c)" by (cases x)
  obtain r2 c2 where y: "y = (r2, c2)" by (cases y)
  from xy x y obtain dir where g: "r < nR" "c < nC" and dir: "dir \<in> set directions"
    and t: "maze r c AND dir = 0" and n: "getNeighbor r c dir nR nC = Some (r2, c2)"
    by (auto simp: passages_def)
  have b: "r2 < nR" "c2 < nC" using n getNeighbor_dims by blast+
  have rev_n: "getNeighbor r2 c2 (getOppositeWall dir) nR nC = Some (r, c)"
    using n g dims by (rule getNeighbor_opp)
  have "maze r2 c2 AND getOppositeWall dir = 0"
    using s g dir n t unfolding wall_symmetric_def by blast
  with b rev_n getOppositeWall_dir[OF dir] show "(y, x) \<in> passages maze nR nC"
    by (auto simp: passages_def x y)
qed

lemma all_walls_test: "dir \<in> set directions \<Longrightarrow> ALL_WALLS AND dir \<noteq> 0"
  by (auto simp: directions_def wall_defs ALL_WALLS_def)

lemma passages_initMaze: "passages (initMaze maze nR nC) nR nC = {}"
  by (auto simp: passages_def initMaze_apply all_walls_test)

lemma wall_symmetric_initMaze: "wall_symmetric (initMaze maze nR nC) nR nC"
  unfolding wall_symmetric_def
proof (intro allI impI ballI)
  fix r c dir r2 c2
  assume g: "r < nR" "c < nC" and dir: "dir \<in> set directions"
    and n: "getNeighbor r c dir nR nC = Some (r2, c2)"
  have b: "r2 < nR" "c2 < nC" using n getNeighbor_dims by blast+
  show "(initMaze maze nR nC r c AND dir \<noteq> 0) =
        (initMaze maze nR nC r2 c2 AND getOppositeWall dir \<noteq> 0)"
    using g b all_walls_test[OF dir] all_walls_test[OF getOppositeWall_dir[OF dir]]
    by (simp add: initMaze_apply)
qed

lemma boundary_closed_initMaze: "boundary_closed (initMaze maze nR nC) nR nC"
  by (simp add: boundary_closed_def initMaze_apply all_walls_test)

lemma idx_inj:
  assumes "c < nC" "c' < nC" "r * nC + c = r' * nC + (c'::nat)"
  shows "r = r' \<and> c = c'"
  using idx_div_mod[OF assms(1), of r] idx_div_mod[OF assms(2), of r'] assms(3) by simp

lemma idx_bound:
  assumes "r < nR" "c < nC"
  shows "r * nC + c < nR * (nC::nat)"
proof -
  have "r * nC + c < r * nC + nC" using assms(2) by simp
  also have "\<dots> = (r + 1) * nC" by simp
  also have "\<dots> \<le> nR * nC" using assms(1) by (intro mult_le_mono1) simp
  finally show ?thesis .
qed

lemma roots_finite: "finite (roots l)"
proof -
  have "roots l \<subseteq> {..<length l}" using root_of_bounds by (auto simp: roots_def)
  then show ?thesis by (rule finite_subset) simp
qed

lemma roots_new: "roots (parent (DSU_new n)) = {..<n}"
  by (auto simp: roots_def root_of_new)

lemma gen_inv_init: "gen_inv nR nC (initMaze maze nR nC, DSU_new (nR * nC), 0)"
proof -
  have conn: "(((r, c), (r', c')) \<in> (passages (initMaze maze nR nC) nR nC)\<^sup>*) =
      same_root (parent (DSU_new (nR * nC))) (r * nC + c) (r' * nC + c')"
    if "r < nR" "c < nC" "r' < nR" "c' < nC" for r c r' c'
  proof -
    have "same_root (parent (DSU_new (nR * nC))) (r * nC + c) (r' * nC + c') \<longleftrightarrow>
        r * nC + c = r' * nC + c'"
      using idx_bound[OF that(1,2)] idx_bound[OF that(3,4)]
      by (auto simp: same_root_def root_of_new)
    also have "\<dots> \<longleftrightarrow> (r, c) = (r', c')" using idx_inj[OF that(2,4)] by auto
    finally show ?thesis by (simp add: passages_initMaze)
  qed
  have len: "length (parent (DSU_new (nR * nC))) = nR * nC" by (simp add: DSU_new_def)
  show ?thesis
    unfolding gen_inv_def
    using conn
    by (simp add: len dsu_inv_new wall_symmetric_initMaze
        boundary_closed_initMaze passages_initMaze forest_def undirected_def roots_new)
qed

lemma same_root_iff:
  "root_of l i ri \<Longrightarrow> root_of l j rj \<Longrightarrow> same_root l i j \<longleftrightarrow> ri = rj"
  unfolding same_root_def using root_of_det by blast

lemma link_dsu_inv:
  assumes inv: "dsu_inv l" and len: "length l3 = length l"
    and R3: "\<And>k x. root_of l3 k x \<longleftrightarrow> (\<exists>y. root_of l k y \<and> x = (if y = ri then rj else y))"
  shows "dsu_inv l3"
  unfolding dsu_inv_def
proof (intro allI impI)
  fix i
  assume "i < length l3"
  with inv len obtain y where "root_of l i y" unfolding dsu_inv_def by auto
  then have "root_of l3 i (if y = ri then rj else y)" unfolding R3 by blast
  then show "\<exists>r. root_of l3 i r" ..
qed

lemma link_same_root:
  assumes inv: "dsu_inv l" and ia: "root_of l ia ri" and ib: "root_of l ib rj" and ne: "ri \<noteq> rj"
    and R3: "\<And>k x. root_of l3 k x \<longleftrightarrow> (\<exists>y. root_of l k y \<and> x = (if y = ri then rj else y))"
    and i: "i < length l" and j: "j < length l"
  shows "same_root l3 i j \<longleftrightarrow>
         same_root l i j \<or> (same_root l i ia \<and> same_root l ib j) \<or>
         (same_root l i ib \<and> same_root l ia j)"
proof -
  from inv i obtain x where x: "root_of l i x" unfolding dsu_inv_def by blast
  from inv j obtain y where y: "root_of l j y" unfolding dsu_inv_def by blast
  let ?f = "\<lambda>y. if y = ri then rj else y"
  have x3: "root_of l3 i (?f x)" and y3: "root_of l3 j (?f y)"
    using x y unfolding R3 by blast+
  have "same_root l3 i j \<longleftrightarrow> ?f x = ?f y" using x3 y3 by (rule same_root_iff)
  also have "\<dots> \<longleftrightarrow> x = y \<or> (x = ri \<and> rj = y) \<or> (x = rj \<and> ri = y)"
    using ne by auto
  also have "\<dots> \<longleftrightarrow> same_root l i j \<or> (same_root l i ia \<and> same_root l ib j) \<or>
         (same_root l i ib \<and> same_root l ia j)"
    unfolding same_root_iff[OF x y] same_root_iff[OF x ia] same_root_iff[OF ib y]
      same_root_iff[OF x ib] same_root_iff[OF ia y] ..
  finally show ?thesis .
qed

lemma link_roots:
  assumes ia: "root_of l ia ri" and ib: "root_of l ib rj" and ne: "ri \<noteq> rj"
    and R3: "\<And>k x. root_of l3 k x \<longleftrightarrow> (\<exists>y. root_of l k y \<and> x = (if y = ri then rj else y))"
  shows "roots l3 = roots l - {ri}" and "ri \<in> roots l"
proof -
  have ri: "root_of l ri ri" using ia root_of_bounds root_of.root by blast
  have rj: "root_of l rj rj" using ib root_of_bounds root_of.root by blast
  show "ri \<in> roots l" using ri by (simp add: roots_def)
  show "roots l3 = roots l - {ri}"
  proof (intro set_eqI iffI)
    fix i
    assume "i \<in> roots l3"
    then obtain y where y: "root_of l i y" "i = (if y = ri then rj else y)"
      unfolding roots_def R3 by blast
    have "y \<noteq> ri"
    proof
      assume "y = ri"
      with y have "root_of l rj ri" by simp
      with rj have "ri = rj" using root_of_det by blast
      with ne show False ..
    qed
    with y show "i \<in> roots l - {ri}" by (simp add: roots_def)
  next
    fix i
    assume "i \<in> roots l - {ri}"
    then have "root_of l i i" "i \<noteq> ri" by (simp_all add: roots_def)
    then have "root_of l3 i i" unfolding R3 by auto
    then show "i \<in> roots l3" by (simp add: roots_def)
  qed
qed

lemma gen_inv_cong:
  assumes "length (parent d') = length (parent d)"
    and "\<And>j x. root_of (parent d') j x \<longleftrightarrow> root_of (parent d) j x"
  shows "gen_inv nR nC (m, d', k) = gen_inv nR nC (m, d, k)"
proof -
  have "root_of (parent d') = root_of (parent d)" using assms(2) by (intro ext) simp
  then show ?thesis
    using assms(1) by (simp add: gen_inv_def dsu_inv_def same_root_def roots_def)
qed

lemma gen_inv_link:
  assumes dims: "nR < 2 ^ 32" "nC < 2 ^ 32" and a: "r1 < nR" "c1 < nC"
    and nb: "getNeighbor r1 c1 d nR nC = Some (r2, c2)"
    and inv: "gen_inv nR nC (maze, dsu, k)"
    and ia: "root_of (parent dsu) (r1 * nC + c1) ri"
    and ib: "root_of (parent dsu) (r2 * nC + c2) rj"
    and ne: "ri \<noteq> rj"
    and len: "length (parent dsu3) = length (parent dsu)"
    and R3: "\<And>k x. root_of (parent dsu3) k x \<longleftrightarrow>
               (\<exists>y. root_of (parent dsu) k y \<and> x = (if y = ri then rj else y))"
  shows "gen_inv nR nC (clear_wall maze r1 c1 d r2 c2, dsu3, k + 1)"
proof -
  let ?l = "parent dsu" and ?l3 = "parent dsu3"
  let ?P = "passages maze nR nC"
  let ?a = "(r1, c1)" and ?b = "(r2, c2)"
  let ?P' = "passages (clear_wall maze r1 c1 d r2 c2) nR nC"
  have b: "r2 < nR" "c2 < nC" using nb getNeighbor_dims by blast+
  from inv have L: "length ?l = nR * nC" and D: "dsu_inv ?l"
    and S: "wall_symmetric maze nR nC" and B: "boundary_closed maze nR nC"
    and F: "forest ?P" and C: "card (undirected ?P) = k"
    and R: "card (roots ?l) + k = nR * nC"
    by (simp_all add: gen_inv_def)
  from inv have conn: "(((r, c), (r', c')) \<in> ?P\<^sup>*) = same_root ?l (r * nC + c) (r' * nC + c')"
    if "r < nR" "c < nC" "r' < nR" "c' < nC" for r c r' c'
    using that by (simp add: gen_inv_def)
  have P': "?P' = ?P \<union> {(?a, ?b), (?b, ?a)}"
    using dims a nb by (rule passages_clear_wall)
  have symP: "sym ?P" using dims S by (rule sym_passages)
  have nab: "(?a, ?b) \<notin> ?P\<^sup>*"
    using conn[OF a b] same_root_iff[OF ia ib] ne by simp
  then have nba: "(?b, ?a) \<notin> ?P\<^sup>*" using sym_rtrancl[OF symP] by (meson symD)
  have 1: "length ?l3 = nR * nC" using len L by simp
  have 2: "dsu_inv ?l3" using D len R3 by (rule link_dsu_inv)
  have 3: "wall_symmetric (clear_wall maze r1 c1 d r2 c2) nR nC"
    using dims a nb S by (rule wall_symmetric_clear_wall)
  have 4: "boundary_closed (clear_wall maze r1 c1 d r2 c2) nR nC"
    using dims a nb B by (rule boundary_closed_clear_wall)
  have 5: "(((r, c), (r', c')) \<in> ?P'\<^sup>*) = same_root ?l3 (r * nC + c) (r' * nC + c')"
    if g: "r < nR" "c < nC" "r' < nR" "c' < nC" for r c r' c'
  proof -
    have i: "r * nC + c < length ?l" "r' * nC + c' < length ?l"
      using idx_bound[OF g(1,2)] idx_bound[OF g(3,4)] L by simp_all
    show ?thesis
      unfolding P' rtrancl_add_edge link_same_root[OF D ia ib ne R3 i]
        conn[OF g] conn[OF g(1,2) a] conn[OF b g(3,4)] conn[OF g(1,2) b] conn[OF a g(3,4)] ..
  qed
  have 6: "forest ?P'" unfolding P' using symP F nab by (rule forest_add_edge)
  have 7: "card (undirected ?P') = k + 1"
    unfolding P' using card_undirected_add_edge[OF passages_finite, of ?a ?b maze nR nC] nab nba C
    by auto
  have 8: "card (roots ?l3) + (k + 1) = nR * nC"
  proof -
    note lr = link_roots[OF ia ib ne R3]
    have "card (roots ?l3) = card (roots ?l) - 1"
      unfolding lr(1) using lr(2) roots_finite by simp
    moreover have "card (roots ?l) > 0" using lr(2) roots_finite
      by (metis card_gt_0_iff empty_iff)
    ultimately show ?thesis using R by simp
  qed
  show ?thesis
    unfolding gen_inv_def using 1 2 3 4 5 6 7 8 by simp
qed

lemma joined_mono:
  "passages maze nR nC \<subseteq> passages maze' nR nC \<Longrightarrow> joined nR nC maze w \<Longrightarrow> joined nR nC maze' w"
  unfolding joined_def using rtrancl_mono by blast

lemma remove_step_inv:
  assumes dims: "nR < 2 ^ 32" "nC < 2 ^ 32" and g: "wall_r w < nR" "wall_c w < nC"
    and inv: "gen_inv nR nC (maze, dsu, k)"
  shows "\<exists>maze' dsu' k'. remove_step nR nC w (maze, dsu, k) = Some (maze', dsu', k') \<and>
           gen_inv nR nC (maze', dsu', k') \<and>
           passages maze nR nC \<subseteq> passages maze' nR nC \<and> joined nR nC maze' w"
proof (cases "getNeighbor (wall_r w) (wall_c w) (wall_direction w) nR nC")
  case None
  then show ?thesis using inv by (simp add: remove_step_def joined_def)
next
  case (Some p)
  obtain r2 c2 where p: "p = (r2, c2)" by (cases p)
  let ?r1 = "wall_r w" and ?c1 = "wall_c w" and ?d = "wall_direction w"
  have nb: "getNeighbor ?r1 ?c1 ?d nR nC = Some (r2, c2)" using Some p by simp
  have b: "r2 < nR" "c2 < nC" using nb getNeighbor_dims by blast+
  from inv have L: "length (parent dsu) = nR * nC" and D: "dsu_inv (parent dsu)"
    by (simp_all add: gen_inv_def)
  from inv have conn: "(((r, c), (r', c')) \<in> (passages maze nR nC)\<^sup>*) =
      same_root (parent dsu) (r * nC + c) (r' * nC + c')"
    if "r < nR" "c < nC" "r' < nR" "c' < nC" for r c r' c'
    using that by (simp add: gen_inv_def)
  have "?r1 * nC + ?c1 < length (parent dsu)" "r2 * nC + c2 < length (parent dsu)"
    using idx_bound[OF g] idx_bound[OF b] L by simp_all
  with D obtain ri rj where ia: "root_of (parent dsu) (?r1 * nC + ?c1) ri"
    and ib: "root_of (parent dsu) (r2 * nC + c2) rj"
    unfolding dsu_inv_def by blast
  from DSU_find_correct[OF ia] obtain d1 where d1:
    "DSU_find dsu (?r1 * nC + ?c1) = Some (ri, d1)"
    "length (parent d1) = length (parent dsu)"
    "\<And>j x. root_of (parent d1) j x \<longleftrightarrow> root_of (parent dsu) j x"
    by blast
  from ib have "root_of (parent d1) (r2 * nC + c2) rj" by (simp add: d1(3))
  from DSU_find_correct[OF this] obtain d2 where d2:
    "DSU_find d1 (r2 * nC + c2) = Some (rj, d2)"
    "length (parent d2) = length (parent dsu)"
    "\<And>j x. root_of (parent d2) j x \<longleftrightarrow> root_of (parent dsu) j x"
    using d1(2,3) by auto
  have inv2: "gen_inv nR nC (maze, d2, k)"
    using inv gen_inv_cong[OF d2(2,3)] by simp
  show ?thesis
  proof (cases "ri = rj")
    case True
    have step: "remove_step nR nC w (maze, dsu, k) = Some (maze, d2, k)"
      using True by (simp add: remove_step_def nb d1(1) d2(1))
    have "((?r1, ?c1), (r2, c2)) \<in> (passages maze nR nC)\<^sup>*"
      using conn[OF g b] same_root_iff[OF ia ib] True by simp
    then have "joined nR nC maze w" using nb by (simp add: joined_def)
    with step inv2 show ?thesis by simp
  next
    case False
    have D2: "dsu_inv (parent d2)" using inv2 by (simp add: gen_inv_def)
    have ia2: "root_of (parent d2) (?r1 * nC + ?c1) ri"
      and ib2: "root_of (parent d2) (r2 * nC + c2) rj"
      using ia ib by (simp_all add: d2(3))
    from DSU_unite_correct[OF D2 ia2 ib2 False] obtain d3 where d3:
      "DSU_unite d2 (?r1 * nC + ?c1) (r2 * nC + c2) = Some d3"
      "length (parent d3) = length (parent d2)"
      "\<And>k x. root_of (parent d3) k x \<longleftrightarrow>
         (\<exists>y. root_of (parent d2) k y \<and> x = (if y = ri then rj else y))"
      by blast
    let ?m' = "clear_wall maze ?r1 ?c1 ?d r2 c2"
    have step: "remove_step nR nC w (maze, dsu, k) = Some (?m', d3, k + 1)"
      using False by (simp add: remove_step_def nb d1(1) d2(1) d3(1))
    have inv3: "gen_inv nR nC (?m', d3, k + 1)"
      using dims g nb inv2 ia2 ib2 False d3(2,3) by (rule gen_inv_link)
    have P': "passages ?m' nR nC =
        passages maze nR nC \<union> {((?r1, ?c1), (r2, c2)), ((r2, c2), (?r1, ?c1))}"
      using dims g nb by (rule passages_clear_wall)
    then have sub: "passages maze nR nC \<subseteq> passages ?m' nR nC" by blast
    have "((?r1, ?c1), (r2, c2)) \<in> (passages ?m' nR nC)\<^sup>*" unfolding P' by blast
    then have "joined nR nC ?m' w" using nb by (simp add: joined_def)
    with step inv3 sub show ?thesis by simp
  qed
qed

lemma removeWalls_inv:
  assumes dims: "nR < 2 ^ 32" "nC < 2 ^ 32"
    and g: "\<forall>w \<in> set ws. wall_r w < nR \<and> wall_c w < nC"
    and inv: "gen_inv nR nC (maze, dsu, k)"
  shows "\<exists>maze' dsu' k'. removeWalls nR nC t ws (maze, dsu, k) = Some (maze', dsu', k') \<and>
           gen_inv nR nC (maze', dsu', k') \<and>
           passages maze nR nC \<subseteq> passages maze' nR nC \<and>
           (k' \<ge> t \<or> (\<forall>w \<in> set ws. joined nR nC maze' w))"
  using g inv
proof (induction ws arbitrary: maze dsu k)
  case Nil
  then show ?case by simp
next
  case (Cons w ws)
  show ?case
  proof (cases "k \<ge> t")
    case True
    with Cons.prems(2) show ?thesis by (simp add: removeWalls_Cons del: removeWalls.simps(2))
  next
    case False
    from Cons.prems(1) have gw: "wall_r w < nR" "wall_c w < nC"
      and gws: "\<forall>w \<in> set ws. wall_r w < nR \<and> wall_c w < nC" by simp_all
    from remove_step_inv[OF dims gw Cons.prems(2)] obtain m1 d1 k1 where s1:
      "remove_step nR nC w (maze, dsu, k) = Some (m1, d1, k1)"
      "gen_inv nR nC (m1, d1, k1)" "passages maze nR nC \<subseteq> passages m1 nR nC"
      "joined nR nC m1 w"
      by blast
    from Cons.IH[OF gws s1(2)] obtain m' d' k' where s2:
      "removeWalls nR nC t ws (m1, d1, k1) = Some (m', d', k')"
      "gen_inv nR nC (m', d', k')" "passages m1 nR nC \<subseteq> passages m' nR nC"
      "k' \<ge> t \<or> (\<forall>w \<in> set ws. joined nR nC m' w)"
      by blast
    have "removeWalls nR nC t (w # ws) (maze, dsu, k) = Some (m', d', k')"
      using False s1(1) s2(1) by (simp add: removeWalls_Cons del: removeWalls.simps(2))
    moreover have "passages maze nR nC \<subseteq> passages m' nR nC" using s1(3) s2(3) by blast
    moreover have "joined nR nC m' w" using s2(3) s1(4) by (rule joined_mono)
    ultimately show ?thesis using s2(2,4) by auto
  qed
qed

lemma getNeighbor_down:
  assumes "nR < 2 ^ 31" "nC < 2 ^ 31" "r + 1 < nR" "c < nC"
  shows "getNeighbor r c WALL_DOWN nR nC = Some (r + 1, c)"
proof -
  have "r < nR" using assms(3) by simp
  from getNeighbor_eq[OF assms(1,2) this assms(4), of WALL_DOWN] assms(3,4) show ?thesis
    by (simp add: neighborOffset_def wall_defs nat_add_distrib)
qed

lemma getNeighbor_right:
  assumes "nR < 2 ^ 31" "nC < 2 ^ 31" "r < nR" "c + 1 < nC"
  shows "getNeighbor r c (if even c then WALL_DOWN_RIGHT else WALL_UP_RIGHT) nR nC =
         Some (r, c + 1)"
proof -
  have c: "c < nC" using assms(4) by simp
  have par: "int c AND 1 = (if even c then 0 else 1)"
    by (simp add: and_one_eq mod2_eq_if)
  show ?thesis
  proof (cases "even c")
    case True
    with getNeighbor_eq[OF assms(1,2,3) c, of WALL_DOWN_RIGHT] assms(3,4) par show ?thesis
      by (simp add: neighborOffset_def wall_defs nat_add_distrib)
  next
    case False
    with getNeighbor_eq[OF assms(1,2,3) c, of WALL_UP_RIGHT] assms(3,4) par show ?thesis
      by (simp add: neighborOffset_def wall_defs nat_add_distrib)
  qed
qed

lemma all_joined_reach:
  assumes dims: "nR < 2 ^ 31" "nC < 2 ^ 31"
    and j: "\<forall>w \<in> set (internalWalls nR nC). joined nR nC maze w"
    and g: "r < nR" "c < nC"
  shows "((0, 0), (r, c)) \<in> (passages maze nR nC)\<^sup>*"
proof -
  let ?P = "passages maze nR nC"
  have row: "((0, 0), (0, c)) \<in> ?P\<^sup>*" if "c < nC" for c
    using that
  proof (induction c)
    case 0
    show ?case by simp
  next
    case (Suc c)
    then have IH: "((0, 0), (0, c)) \<in> ?P\<^sup>*" and c: "c + 1 < nC" by simp_all
    have r0: "0 < nR" using g(1) by simp
    let ?d = "if even c then WALL_DOWN_RIGHT else WALL_UP_RIGHT"
    have nb: "getNeighbor 0 c ?d nR nC = Some (0, c + 1)"
      using dims r0 c by (rule getNeighbor_right)
    have "?d \<in> candidate_dirs" by (simp add: candidate_dirs_def)
    with nb r0 c have "Wall 0 c ?d \<in> set (internalWalls nR nC)"
      by (simp add: mem_internalWalls)
    with j have "joined nR nC maze (Wall 0 c ?d)" by blast
    with nb have "((0, c), (0, c + 1)) \<in> ?P\<^sup>*" by (simp add: joined_def)
    with IH show ?case by simp
  qed
  have col: "((0, c), (r, c)) \<in> ?P\<^sup>*" if "r < nR" for r
    using that
  proof (induction r)
    case 0
    show ?case by simp
  next
    case (Suc r)
    then have IH: "((0, c), (r, c)) \<in> ?P\<^sup>*" and r: "r + 1 < nR" by simp_all
    have nb: "getNeighbor r c WALL_DOWN nR nC = Some (r + 1, c)"
      using dims r g(2) by (rule getNeighbor_down)
    have "WALL_DOWN \<in> candidate_dirs" by (simp add: candidate_dirs_def)
    with nb r g(2) have "Wall r c WALL_DOWN \<in> set (internalWalls nR nC)"
      by (simp add: mem_internalWalls)
    with j have "joined nR nC maze (Wall r c WALL_DOWN)" by blast
    with nb have "((r, c), (r + 1, c)) \<in> ?P\<^sup>*" by (simp add: joined_def)
    with IH show ?case by simp
  qed
  from row[OF g(2)] col[OF g(1)] show ?thesis by simp
qed

lemma gen_inv_finish:
  assumes dims: "nR < 2 ^ 31" "nC < 2 ^ 31" and pos: "0 < nR" "0 < nC"
    and inv: "gen_inv nR nC (maze, dsu, k)"
    and fin: "k \<ge> nR * nC - 1 \<or> (\<forall>w \<in> set (internalWalls nR nC). joined nR nC maze w)"
  shows "k = nR * nC - 1 \<and> connected_passages maze nR nC"
proof -
  let ?l = "parent dsu" and ?P = "passages maze nR nC"
  from inv have L: "length ?l = nR * nC" and D: "dsu_inv ?l"
    and R: "card (roots ?l) + k = nR * nC"
    by (simp_all add: gen_inv_def)
  from inv have conn: "(((r, c), (r', c')) \<in> ?P\<^sup>*) = same_root ?l (r * nC + c) (r' * nC + c')"
    if "r < nR" "c < nC" "r' < nR" "c' < nC" for r c r' c'
    using that by (simp add: gen_inv_def)
  have n: "0 < nR * nC" using pos by simp
  then have "0 < length ?l" using L by simp
  with D obtain r0 where r0: "root_of ?l 0 r0" unfolding dsu_inv_def by blast
  have root_in: "r \<in> roots ?l" if "root_of ?l i r" for i r
    using that root_of_bounds root_of.root unfolding roots_def by blast
  have r0_in: "r0 \<in> roots ?l" using r0 by (rule root_in)
  have one: "roots ?l = {r0}"
    using fin
  proof
    assume "nR * nC - 1 \<le> k"
    with R n have "card (roots ?l) \<le> 1" by simp
    then have "\<forall>a \<in> roots ?l. \<forall>b \<in> roots ?l. a = b"
      using card_le_Suc0_iff_eq[OF roots_finite[of ?l]] by simp
    with r0_in show ?thesis by blast
  next
    assume j: "\<forall>w \<in> set (internalWalls nR nC). joined nR nC maze w"
    have "i = r0" if i: "i \<in> roots ?l" for i
    proof -
      from i have ii: "root_of ?l i i" by (simp add: roots_def)
      then have "i < nR * nC" using root_of_bounds L by fastforce
      then have g: "i div nC < nR" "i mod nC < nC"
        using pos by (simp_all add: less_mult_imp_div_less)
      from all_joined_reach[OF dims j g] conn[OF pos g]
      have "same_root ?l 0 i" by simp
      with same_root_iff[OF r0 ii] show ?thesis by simp
    qed
    with r0_in show ?thesis by blast
  qed
  then have "card (roots ?l) = 1" by simp
  with R have k: "k = nR * nC - 1" by simp
  have "((r, c), (r', c')) \<in> ?P\<^sup>*" if g: "r < nR" "c < nC" "r' < nR" "c' < nC" for r c r' c'
  proof -
    have "r * nC + c < length ?l" "r' * nC + c' < length ?l"
      using idx_bound[OF g(1,2)] idx_bound[OF g(3,4)] L by simp_all
    with D obtain x y where x: "root_of ?l (r * nC + c) x" and y: "root_of ?l (r' * nC + c') y"
      unfolding dsu_inv_def by blast
    from root_in[OF x] root_in[OF y] one have "x = y" by simp
    with same_root_iff[OF x y] conn[OF g] show ?thesis by simp
  qed
  with k show ?thesis by (simp add: connected_passages_def)
qed

lemma small_dims:
  assumes "nR \<le> MAX_ROWS" "nC \<le> MAX_COLS"
  shows "nR < 2 ^ 31" "nC < 2 ^ 31" "nR < 2 ^ 32" "nC < 2 ^ 32" "nR * nC < 2 ^ 32"
proof -
  from assms have a: "nR \<le> 50" "nC \<le> 50" by (simp_all add: MAX_ROWS_def MAX_COLS_def)
  then show "nR < 2 ^ 31" "nC < 2 ^ 31" "nR < 2 ^ 32" "nC < 2 ^ 32" by simp_all
  from a have "nR * nC \<le> 50 * 50" by (rule mult_le_mono)
  then show "nR * nC < 2 ^ 32" by simp
qed

lemma target_walls:
  assumes "0 < n" "n < 2 ^ 32"
  shows "(n mod 2 ^ 32 + 2 ^ 32 - 1) mod 2 ^ 32 = n - (1::nat)"
proof -
  have "n mod 2 ^ 32 + 2 ^ 32 - 1 = (n - 1) + 1 * 2 ^ 32" using assms by simp
  moreover have "n - 1 < 2 ^ 32" using assms by simp
  ultimately show ?thesis by (simp only: mod_mult_self1 mod_less)
qed

lemma internalWalls_in_grid:
  "w \<in> set (internalWalls nR nC) \<Longrightarrow> wall_r w < nR \<and> wall_c w < nC"
  by (auto simp: set_internalWalls)

text \<open>The loop from the initial state, over any list of candidates of the enumeration.\<close>

lemma removeWalls_from_init:
  assumes dims: "nR \<le> MAX_ROWS" "nC \<le> MAX_COLS"
    and sub: "set ws \<subseteq> set (internalWalls nR nC)"
  shows "\<exists>maze' dsu' k'.
    removeWalls nR nC t ws (initMaze maze nR nC, DSU_new (nR * nC), 0) = Some (maze', dsu', k') \<and>
    gen_inv nR nC (maze', dsu', k') \<and> (k' \<ge> t \<or> (\<forall>w \<in> set ws. joined nR nC maze' w))"
proof -
  note sd = small_dims[OF dims]
  have g: "\<forall>w \<in> set ws. wall_r w < nR \<and> wall_c w < nC"
    using sub internalWalls_in_grid by blast
  from removeWalls_inv[OF sd(3,4) g gen_inv_init, of t maze] show ?thesis by blast
qed

lemma generateMaze_result:
  assumes pos: "1 \<le> nR" "1 \<le> nC" and dims: "nR \<le> MAX_ROWS" "nC \<le> MAX_COLS"
    and perm: "mset (rng (internalWalls nR nC)) = mset (internalWalls nR nC)"
  shows "\<exists>maze' dsu'. generateMaze maze nR nC rng = Some (maze', False) \<and>
     gen_inv nR nC (maze', dsu', nR * nC - 1) \<and> connected_passages maze' nR nC"
proof -
  note sd = small_dims[OF dims]
  have n: "0 < nR * nC" using pos by simp
  have tot: "(nR * nC) mod 2 ^ 32 = nR * nC" using sd(5) by simp
  have tgt: "((nR * nC) mod 2 ^ 32 + 2 ^ 32 - 1) mod 2 ^ 32 = nR * nC - 1"
    using n sd(5) by (rule target_walls)
  have seteq: "set (rng (internalWalls nR nC)) = set (internalWalls nR nC)"
    using perm by (rule mset_eq_setD)
  from removeWalls_from_init[OF dims, of "rng (internalWalls nR nC)" "nR * nC - 1" maze] seteq
  obtain maze' dsu' k' where res:
    "removeWalls nR nC (nR * nC - 1) (rng (internalWalls nR nC))
       (initMaze maze nR nC, DSU_new (nR * nC), 0) = Some (maze', dsu', k')"
    "gen_inv nR nC (maze', dsu', k')"
    "k' \<ge> nR * nC - 1 \<or> (\<forall>w \<in> set (internalWalls nR nC). joined nR nC maze' w)"
    by auto
  from pos have pos': "0 < nR" "0 < nC" by simp_all
  from gen_inv_finish[OF sd(1,2) pos' res(2,3)]
  have k: "k' = nR * nC - 1" and c: "connected_passages maze' nR nC" by simp_all
  have "generateMaze maze nR nC rng = Some (maze', False)"
    unfolding generateMaze_def Let_def tgt unfolding tot using res(1) k by simp
  with res(2) k c show ?thesis by blast
qed

lemma generation_prefix_inv:
  assumes "nR \<le> MAX_ROWS" and "nC \<le> MAX_COLS"
    and "mset (rng (internalWalls nR nC)) = mset (internalWalls nR nC)"
  shows "\<exists>maze' dsu' k'. generation_prefix maze nR nC rng n = Some (maze', dsu', k') \<and>
           gen_inv nR nC (maze', dsu', k')"
proof -
  note sd = small_dims[OF assms(1,2)]
  have tot: "(nR * nC) mod 2 ^ 32 = nR * nC" using sd(5) by simp
  have "set (take n (rng (internalWalls nR nC))) \<subseteq> set (rng (internalWalls nR nC))"
    by (rule set_take_subset)
  also have "\<dots> = set (internalWalls nR nC)" using assms(3) by (rule mset_eq_setD)
  finally have sub: "set (take n (rng (internalWalls nR nC))) \<subseteq> set (internalWalls nR nC)" .
  from removeWalls_from_init[OF assms(1,2) sub] show ?thesis
    unfolding generation_prefix_def Let_def tot by blast
qed

lemma cellwise_id: "cellwise (\<lambda>m. m)"
  by (simp add: cellwise_def)

lemma cellwise_clear_wall:
  assumes "(r2, c2) \<noteq> (r1, c1)"
  shows "cellwise (\<lambda>m. clear_wall m r1 c1 d r2 c2)"
  unfolding cellwise_def
proof (intro allI impI)
  fix m m' :: maze and r c
  assume "m r c = m' r c"
  then show "clear_wall m r1 c1 d r2 c2 r c = clear_wall m' r1 c1 d r2 c2 r c"
    by (auto simp: clear_wall_cell[OF assms])
qed

lemma cellwise_comp:
  assumes "cellwise F" "cellwise G"
  shows "cellwise (\<lambda>m. G (F m))"
  unfolding cellwise_def
proof (intro allI impI)
  fix m m' :: maze and r c
  assume "m r c = m' r c"
  with assms(1) have "F m r c = F m' r c" unfolding cellwise_def by blast
  with assms(2) show "G (F m) r c = G (F m') r c" unfolding cellwise_def by blast
qed

lemma remove_step_transformer:
  assumes "remove_step nR nC w (m0, d, k) = Some (g, d', k')"
  shows "\<exists>F. cellwise F \<and> (\<forall>m. remove_step nR nC w (m, d, k) = Some (F m, d', k'))"
proof (cases "getNeighbor (wall_r w) (wall_c w) (wall_direction w) nR nC")
  case None
  then have eq: "remove_step nR nC w (m, d, k) = Some (m, d, k)" for m
    by (simp add: remove_step_def)
  from assms eq[of m0] have "d' = d" "k' = k" by simp_all
  with eq have "\<forall>m. remove_step nR nC w (m, d, k) = Some (m, d', k')" by simp
  with cellwise_id show ?thesis by blast
next
  case (Some p)
  obtain r2 c2 where p: "p = (r2, c2)" by (cases p)
  let ?i = "wall_r w * nC + wall_c w" and ?j = "r2 * nC + c2"
  have nb: "getNeighbor (wall_r w) (wall_c w) (wall_direction w) nR nC = Some (r2, c2)"
    using Some p by simp
  have ne: "(r2, c2) \<noteq> (wall_r w, wall_c w)" using nb by (rule getNeighbor_neq)
  have eq0: "remove_step nR nC w (m, d, k) =
      (case DSU_find d ?i of None \<Rightarrow> None
       | Some (root1, dsu1) \<Rightarrow>
          (case DSU_find dsu1 ?j of None \<Rightarrow> None
           | Some (root2, dsu2) \<Rightarrow>
               if root1 \<noteq> root2 then
                 (case DSU_unite dsu2 ?i ?j of None \<Rightarrow> None
                  | Some dsu3 \<Rightarrow>
                      Some (clear_wall m (wall_r w) (wall_c w) (wall_direction w) r2 c2,
                            dsu3, k + 1))
               else Some (m, dsu2, k)))" for m
    by (simp add: remove_step_def nb)
  from assms obtain x1 where f1': "DSU_find d ?i = Some x1"
    unfolding eq0 by (cases "DSU_find d ?i") simp_all
  obtain root1 d1 where f1: "DSU_find d ?i = Some (root1, d1)" using f1' by (cases x1) simp
  from assms obtain x2 where f2': "DSU_find d1 ?j = Some x2"
    unfolding eq0 f1 by (cases "DSU_find d1 ?j") simp_all
  obtain root2 d2 where f2: "DSU_find d1 ?j = Some (root2, d2)" using f2' by (cases x2) simp
  have eq1: "remove_step nR nC w (m, d, k) =
      (if root1 \<noteq> root2 then
         (case DSU_unite d2 ?i ?j of None \<Rightarrow> None
          | Some dsu3 \<Rightarrow>
              Some (clear_wall m (wall_r w) (wall_c w) (wall_direction w) r2 c2, dsu3, k + 1))
       else Some (m, d2, k))" for m
    by (simp add: eq0 f1 f2)
  show ?thesis
  proof (cases "root1 = root2")
    case True
    then have eq: "remove_step nR nC w (m, d, k) = Some (m, d2, k)" for m
      unfolding eq1 by simp
    from assms eq[of m0] have "d' = d2" "k' = k" by simp_all
    with eq have "\<forall>m. remove_step nR nC w (m, d, k) = Some (m, d', k')" by simp
    with cellwise_id show ?thesis by blast
  next
    case False
    from assms obtain d3 where u: "DSU_unite d2 ?i ?j = Some d3"
      unfolding eq1 using False by (cases "DSU_unite d2 ?i ?j") simp_all
    have eq: "remove_step nR nC w (m, d, k) =
        Some (clear_wall m (wall_r w) (wall_c w) (wall_direction w) r2 c2, d3, k + 1)" for m
      unfolding eq1 u using False by simp
    from assms eq[of m0] have "d' = d3" "k' = k + 1" by simp_all
    with eq have "\<forall>m. remove_step nR nC w (m, d, k) =
        Some (clear_wall m (wall_r w) (wall_c w) (wall_direction w) r2 c2, d', k')" by simp
    with cellwise_clear_wall[OF ne] show ?thesis by blast
  qed
qed

lemma removeWalls_transformer:
  assumes "removeWalls nR nC t ws (m0, d, k) = Some (g, d', k')"
  shows "\<exists>F. cellwise F \<and> (\<forall>m. removeWalls nR nC t ws (m, d, k) = Some (F m, d', k'))"
  using assms
proof (induction ws arbitrary: m0 d k)
  case Nil
  then have "\<forall>m. removeWalls nR nC t [] (m, d, k) = Some (m, d', k')" by simp
  with cellwise_id show ?case by blast
next
  case (Cons w ws)
  show ?case
  proof (cases "k \<ge> t")
    case True
    with Cons.prems have "\<forall>m. removeWalls nR nC t (w # ws) (m, d, k) = Some (m, d', k')"
      by (simp add: removeWalls_Cons del: removeWalls.simps(2))
    with cellwise_id show ?thesis by blast
  next
    case False
    with Cons.prems obtain m1 d1 k1 where
      s1: "remove_step nR nC w (m0, d, k) = Some (m1, d1, k1)"
      and s2: "removeWalls nR nC t ws (m1, d1, k1) = Some (g, d', k')"
      by (auto simp: removeWalls_Cons bind_eq_Some_conv simp del: removeWalls.simps(2))
    from remove_step_transformer[OF s1] obtain F where
      F: "cellwise F" "\<And>m. remove_step nR nC w (m, d, k) = Some (F m, d1, k1)" by blast
    from Cons.IH[OF s2] obtain G where
      G: "cellwise G" "\<And>m. removeWalls nR nC t ws (m, d1, k1) = Some (G m, d', k')" by blast
    have "\<forall>m. removeWalls nR nC t (w # ws) (m, d, k) = Some (G (F m), d', k')"
      using False F(2) G(2) by (simp add: removeWalls_Cons del: removeWalls.simps(2))
    with cellwise_comp[OF F(1) G(1)] show ?thesis by blast
  qed
qed

lemma generateMaze_same_order:
  assumes eq: "rng1 (internalWalls nR nC) = rng2 (internalWalls nR nC)"
    and res: "generateMaze maze1 nR nC rng1 = Some (g1, w)"
  shows "\<exists>g2. generateMaze maze2 nR nC rng2 = Some (g2, w) \<and> grid_eq nR nC g1 g2"
proof -
  let ?n = "(nR * nC) mod 2 ^ 32"
  let ?t = "(?n + 2 ^ 32 - 1) mod 2 ^ 32"
  from res obtain d' k' where
    r1: "removeWalls nR nC ?t (rng1 (internalWalls nR nC)) (initMaze maze1 nR nC, DSU_new ?n, 0)
          = Some (g1, d', k')"
    and w: "w = (k' < ?t)"
    by (auto simp: generateMaze_def Let_def split: option.splits)
  from removeWalls_transformer[OF r1] obtain F where
    F: "cellwise F"
    "\<And>m. removeWalls nR nC ?t (rng1 (internalWalls nR nC)) (m, DSU_new ?n, 0) = Some (F m, d', k')"
    by blast
  from F(2)[of "initMaze maze1 nR nC"] r1 have g1: "g1 = F (initMaze maze1 nR nC)" by simp
  have "generateMaze maze2 nR nC rng2 = Some (F (initMaze maze2 nR nC), w)"
    using F(2)[of "initMaze maze2 nR nC"] w by (simp add: generateMaze_def Let_def eq[symmetric])
  moreover have "grid_eq nR nC g1 (F (initMaze maze2 nR nC))"
    unfolding grid_eq_def g1
  proof (intro allI impI)
    fix r c
    assume "r < nR" "c < nC"
    then have "initMaze maze1 nR nC r c = initMaze maze2 nR nC r c" by (simp add: initMaze_apply)
    with F(1) show "F (initMaze maze1 nR nC) r c = F (initMaze maze2 nR nC) r c"
      unfolding cellwise_def by blast
  qed
  ultimately show ?thesis by blast
qed

section \<open>Breadth-first distance labeling\<close>

lemma cell_of_idx: "in_grid nR nC v \<Longrightarrow> cell_of nC (idx nC v) = v"
  using idx_div_mod[of "snd v" nC "fst v"] by (simp add: cell_of_def idx_def in_grid_def)

lemma idx_inj_grid:
  "in_grid nR nC v \<Longrightarrow> in_grid nR nC w \<Longrightarrow> idx nC v = idx nC w \<Longrightarrow> v = w"
  using cell_of_idx by metis

lemma succs_in_grid: "w \<in> succs maze nR nC u ds \<Longrightarrow> in_grid nR nC w"
  using getNeighbor_dims by (cases w) (auto simp: succs_def in_grid_def)

lemma succs_Nil: "succs maze nR nC u [] = {}"
  by (simp add: succs_def)

lemma succs_append:
  "succs maze nR nC u (ds1 @ ds2) = succs maze nR nC u ds1 \<union> succs maze nR nC u ds2"
  by (auto simp: succs_def)

lemma label_set_cell:
  "label (set_cell cnt r c x) v = (if v = (r, c) then x else label cnt v)"
  by (cases v) (auto simp: label_def set_cell_apply)

lemma scan_result_refl: "scan_result maze nR nC u [] st st"
  by (cases st) (simp add: scan_result_def succs_Nil)

lemma scan_result_same:
  assumes "\<forall>w \<in> succs maze nR nC u ds. label cnt w \<noteq> -1"
  shows "scan_result maze nR nC u ds (cnt, q, pushed) (cnt, q, pushed)"
  using assms by (simp add: scan_result_def)

lemma scan_result_visit:
  assumes lu: "label cnt (r, c) \<noteq> -2"
  shows "scan_result maze nR nC (r, c) [dir] (cnt, q, pushed)
           (bfs_visit maze nR nC r c dir (cnt, q, pushed))"
proof (cases rule: bfs_visit_cases[of maze nR nC r c dir cnt q pushed])
  case same
  have "\<forall>w \<in> succs maze nR nC (r, c) [dir]. label cnt w \<noteq> -1"
  proof
    fix w
    assume "w \<in> succs maze nR nC (r, c) [dir]"
    then have o: "maze r c AND dir = 0" and n: "getNeighbor r c dir nR nC = Some w"
      by (simp_all add: succs_def)
    obtain r2 c2 where w: "w = (r2, c2)" by (cases w)
    show "label cnt w \<noteq> -1"
    proof
      assume "label cnt w = -1"
      then have "cnt r2 c2 = -1" by (simp add: label_def w)
      with o n w have "bfs_visit maze nR nC r c dir (cnt, q, pushed) =
          (set_cell cnt r2 c2 (cnt r c + 1), q @ [r2 * nC + c2], pushed @ [r2 * nC + c2])"
        by (simp add: bfs_visit_def)
      with same show False by simp
    qed
  qed
  then show ?thesis unfolding same by (rule scan_result_same)
next
  case (push r2 c2)
  let ?w = "(r2, c2)"
  let ?cnt' = "set_cell cnt r2 c2 (cnt r c + 1)"
  have g: "in_grid nR nC ?w" using push(1) getNeighbor_dims by (simp add: in_grid_def)
  have ne: "?w \<noteq> (r, c)" using push(1) by (rule getNeighbor_neq)
  have s: "succs maze nR nC (r, c) [dir] = {?w}" using push(1,2) by (auto simp: succs_def)
  have lw: "label cnt ?w = -1" using push(3) by (simp add: label_def)
  have newl: "cnt r c + 1 \<noteq> -1" using lu by (simp add: label_def)
  have l': "label ?cnt' v = (if v = ?w then cnt r c + 1 else label cnt v)" for v
    by (rule label_set_cell)
  have lu': "label cnt (r, c) = cnt r c" by (simp add: label_def)
  show ?thesis
    unfolding push(4) scan_result_def prod.case s
  proof (intro conjI allI impI ballI)
    fix v
    assume "label cnt v \<noteq> -1"
    with lw show "label ?cnt' v = label cnt v" by (auto simp: l')
  next
    fix v
    assume "label ?cnt' v \<noteq> -1"
    then show "label cnt v \<noteq> -1 \<or> (v \<in> {?w} \<and> label ?cnt' v = label cnt (r, c) + 1)"
      by (auto simp: l' lu')
  next
    fix w
    assume "w \<in> {?w}"
    then show "label ?cnt' w \<noteq> -1" using newl by (simp add: l')
  next
    show "\<exists>new. q @ [r2 * nC + c2] = q @ new \<and> pushed @ [r2 * nC + c2] = pushed @ new \<and>
        distinct new \<and>
        (\<forall>i \<in> set new. \<exists>v. i = idx nC v \<and> in_grid nR nC v \<and> label cnt v = -1 \<and>
                             label ?cnt' v \<noteq> -1) \<and>
        (\<forall>v. label cnt v = -1 \<and> label ?cnt' v \<noteq> -1 \<longrightarrow> idx nC v \<in> set new)"
    proof (intro exI[of _ "[r2 * nC + c2]"] conjI allI impI ballI)
      fix i
      assume "i \<in> set [r2 * nC + c2]"
      then have "i = idx nC ?w" by (simp add: idx_def)
      with g lw newl show "\<exists>v. i = idx nC v \<and> in_grid nR nC v \<and> label cnt v = -1 \<and>
                             label ?cnt' v \<noteq> -1"
        by (intro exI[of _ ?w]) (simp add: l')
    next
      fix v
      assume "label cnt v = -1 \<and> label ?cnt' v \<noteq> -1"
      then have "v = ?w" by (auto simp: l' split: if_splits)
      then show "idx nC v \<in> set [r2 * nC + c2]" by (simp add: idx_def)
    qed simp_all
  qed
qed

lemma scan_result_trans:
  assumes a: "scan_result maze nR nC u ds1 (cnt, q, pushed) (cnt1, q1, pushed1)"
    and b: "scan_result maze nR nC u ds2 (cnt1, q1, pushed1) (cnt2, q2, pushed2)"
    and lu: "label cnt u \<noteq> -1"
  shows "scan_result maze nR nC u (ds1 @ ds2) (cnt, q, pushed) (cnt2, q2, pushed2)"
proof -
  let ?S1 = "succs maze nR nC u ds1" and ?S2 = "succs maze nR nC u ds2"
  from a have A1: "\<And>v. label cnt v \<noteq> -1 \<Longrightarrow> label cnt1 v = label cnt v"
    and A2: "\<And>v. label cnt1 v \<noteq> -1 \<Longrightarrow>
               label cnt v \<noteq> -1 \<or> (v \<in> ?S1 \<and> label cnt1 v = label cnt u + 1)"
    and A3: "\<And>w. w \<in> ?S1 \<Longrightarrow> label cnt1 w \<noteq> -1"
    unfolding scan_result_def prod.case by blast+
  from a obtain new1 where N1: "q1 = q @ new1" "pushed1 = pushed @ new1" "distinct new1"
    "\<And>i. i \<in> set new1 \<Longrightarrow> \<exists>v. i = idx nC v \<and> in_grid nR nC v \<and> label cnt v = -1 \<and>
                                 label cnt1 v \<noteq> -1"
    "\<And>v. label cnt v = -1 \<Longrightarrow> label cnt1 v \<noteq> -1 \<Longrightarrow> idx nC v \<in> set new1"
    unfolding scan_result_def prod.case by blast
  from b have B1: "\<And>v. label cnt1 v \<noteq> -1 \<Longrightarrow> label cnt2 v = label cnt1 v"
    and B2: "\<And>v. label cnt2 v \<noteq> -1 \<Longrightarrow>
               label cnt1 v \<noteq> -1 \<or> (v \<in> ?S2 \<and> label cnt2 v = label cnt1 u + 1)"
    and B3: "\<And>w. w \<in> ?S2 \<Longrightarrow> label cnt2 w \<noteq> -1"
    unfolding scan_result_def prod.case by blast+
  from b obtain new2 where N2: "q2 = q1 @ new2" "pushed2 = pushed1 @ new2" "distinct new2"
    "\<And>i. i \<in> set new2 \<Longrightarrow> \<exists>v. i = idx nC v \<and> in_grid nR nC v \<and> label cnt1 v = -1 \<and>
                                 label cnt2 v \<noteq> -1"
    "\<And>v. label cnt1 v = -1 \<Longrightarrow> label cnt2 v \<noteq> -1 \<Longrightarrow> idx nC v \<in> set new2"
    unfolding scan_result_def prod.case by blast
  have u1: "label cnt1 u = label cnt u" using lu by (rule A1)
  have back1: "label cnt v = -1" if "label cnt1 v = -1" for v
    using that A1[of v] by force
  have G1: "label cnt2 v = label cnt v" if "label cnt v \<noteq> -1" for v
    using A1[OF that] B1[of v] that by simp
  have G2: "label cnt v \<noteq> -1 \<or> (v \<in> ?S1 \<union> ?S2 \<and> label cnt2 v = label cnt u + 1)"
    if "label cnt2 v \<noteq> -1" for v
  proof (cases "label cnt1 v = -1")
    case True
    with B2[OF that] u1 show ?thesis by simp
  next
    case False
    from A2[OF False] B1[OF False] show ?thesis by auto
  qed
  have G3: "label cnt2 w \<noteq> -1" if "w \<in> ?S1 \<union> ?S2" for w
    using that A3[of w] B1[of w] B3[of w] by auto
  have disj: "set new1 \<inter> set new2 = {}"
  proof (rule ccontr)
    assume "set new1 \<inter> set new2 \<noteq> {}"
    then obtain i where i: "i \<in> set new1" "i \<in> set new2" by blast
    from N1(4)[OF i(1)] obtain v where v: "i = idx nC v" "in_grid nR nC v" "label cnt1 v \<noteq> -1"
      by blast
    from N2(4)[OF i(2)] obtain w where w: "i = idx nC w" "in_grid nR nC w" "label cnt1 w = -1"
      by blast
    from v(1,2) w(1,2) have "v = w" using idx_inj_grid by metis
    with v(3) w(3) show False by simp
  qed
  have G4a: "\<exists>v. i = idx nC v \<and> in_grid nR nC v \<and> label cnt v = -1 \<and> label cnt2 v \<noteq> -1"
    if "i \<in> set (new1 @ new2)" for i
  proof (cases "i \<in> set new1")
    case True
    from N1(4)[OF True] obtain v where v: "i = idx nC v" "in_grid nR nC v" "label cnt v = -1"
      "label cnt1 v \<noteq> -1" by blast
    from B1[OF v(4)] v(4) have "label cnt2 v \<noteq> -1" by simp
    with v show ?thesis by blast
  next
    case False
    with that have "i \<in> set new2" by simp
    from N2(4)[OF this] obtain v where v: "i = idx nC v" "in_grid nR nC v" "label cnt1 v = -1"
      "label cnt2 v \<noteq> -1" by blast
    from back1[OF v(3)] v show ?thesis by blast
  qed
  have G4b: "idx nC v \<in> set (new1 @ new2)" if "label cnt v = -1" "label cnt2 v \<noteq> -1" for v
  proof (cases "label cnt1 v = -1")
    case True
    from N2(5)[OF True that(2)] show ?thesis by simp
  next
    case False
    from N1(5)[OF that(1) False] show ?thesis by simp
  qed
  have G4: "\<exists>new. q2 = q @ new \<and> pushed2 = pushed @ new \<and> distinct new \<and>
           (\<forall>i \<in> set new. \<exists>v. i = idx nC v \<and> in_grid nR nC v \<and>
                                label cnt v = -1 \<and> label cnt2 v \<noteq> -1) \<and>
           (\<forall>v. label cnt v = -1 \<and> label cnt2 v \<noteq> -1 \<longrightarrow> idx nC v \<in> set new)"
  proof (intro exI[of _ "new1 @ new2"] conjI ballI allI impI)
    show "q2 = q @ new1 @ new2" by (simp add: N1(1) N2(1))
    show "pushed2 = pushed @ new1 @ new2" by (simp add: N1(2) N2(2))
    show "distinct (new1 @ new2)" using N1(3) N2(3) disj by simp
  next
    fix i assume "i \<in> set (new1 @ new2)"
    then show "\<exists>v. i = idx nC v \<and> in_grid nR nC v \<and> label cnt v = -1 \<and> label cnt2 v \<noteq> -1"
      by (rule G4a)
  next
    fix v assume "label cnt v = -1 \<and> label cnt2 v \<noteq> -1"
    then show "idx nC v \<in> set (new1 @ new2)" using G4b by blast
  qed
  show ?thesis
    unfolding scan_result_def prod.case succs_append
    using G1 G2 G3 G4 by blast
qed

lemma scan_result_fold:
  assumes "label cnt u \<noteq> -1" "label cnt u \<noteq> -2"
  shows "scan_result maze nR nC u ds (cnt, q, pushed)
           (fold (bfs_visit maze nR nC (fst u) (snd u)) ds (cnt, q, pushed))"
  using assms
proof (induction ds arbitrary: cnt q pushed)
  case Nil
  show ?case by (simp add: scan_result_refl)
next
  case (Cons d ds)
  obtain r c where u: "u = (r, c)" by (cases u)
  obtain cnt1 q1 pushed1 where
    st1: "bfs_visit maze nR nC r c d (cnt, q, pushed) = (cnt1, q1, pushed1)"
    by (cases "bfs_visit maze nR nC r c d (cnt, q, pushed)")
  have a: "scan_result maze nR nC u [d] (cnt, q, pushed) (cnt1, q1, pushed1)"
    using scan_result_visit[of cnt r c maze nR nC d q pushed] Cons.prems(2)
    by (simp add: u st1)
  then have "label cnt1 u = label cnt u" using Cons.prems(1)
    unfolding scan_result_def prod.case by blast
  with Cons.prems have l1: "label cnt1 u \<noteq> -1" "label cnt1 u \<noteq> -2" by simp_all
  have b: "scan_result maze nR nC u ds (cnt1, q1, pushed1)
      (fold (bfs_visit maze nR nC (fst u) (snd u)) ds (cnt1, q1, pushed1))"
    using l1 by (rule Cons.IH)
  obtain cnt2 q2 pushed2 where
    st2: "fold (bfs_visit maze nR nC (fst u) (snd u)) ds (cnt1, q1, pushed1) = (cnt2, q2, pushed2)"
    by (cases "fold (bfs_visit maze nR nC (fst u) (snd u)) ds (cnt1, q1, pushed1)")
  from scan_result_trans[OF a b[unfolded st2] Cons.prems(1)]
  show ?case by (simp add: u st1 st2[unfolded u, simplified])
qed

lemma cell_of_in_grid: "i < nR * nC \<Longrightarrow> in_grid nR nC (cell_of nC i)"
proof -
  assume a: "i < nR * nC"
  then have "0 < nC" by (cases nC) simp_all
  with a show ?thesis by (simp add: in_grid_def cell_of_def less_mult_imp_div_less)
qed

lemma idx_cell_of: "idx nC (cell_of nC i) = i"
  by (simp add: idx_def cell_of_def)

lemma idx_lt: "in_grid nR nC v \<Longrightarrow> idx nC v < nR * nC"
  using idx_bound[of "fst v" nR "snd v" nC] by (simp add: in_grid_def idx_def)

lemma succs_passages:
  "in_grid nR nC u \<Longrightarrow> w \<in> succs maze nR nC u directions \<longleftrightarrow> (u, w) \<in> passages maze nR nC"
  by (cases u) (auto simp: succs_def passages_def in_grid_def)

lemma passages_grid:
  "(u, w) \<in> passages maze nR nC \<Longrightarrow> in_grid nR nC u \<and> in_grid nR nC w"
  using passages_in_grid[of "fst u" "snd u" "fst w" "snd w" maze nR nC]
  by (simp add: in_grid_def)

lemma bfs_invD:
  assumes "bfs_inv maze nR nC (cnt, q, pushed)"
  shows "label cnt (nR - 1, nC - 1) = 0"
    and "\<And>v. in_grid nR nC v \<Longrightarrow> label cnt v \<noteq> -1 \<Longrightarrow> 0 \<le> label cnt v"
    and "\<And>v. in_grid nR nC v \<Longrightarrow> label cnt v \<noteq> -1 \<Longrightarrow>
            ((nR - 1, nC - 1), v) \<in> passages maze nR nC ^^ nat (label cnt v)"
    and "\<And>i. i \<in> set pushed \<Longrightarrow> i < nR * nC"
    and "\<And>i. i \<in> set pushed \<Longrightarrow> label cnt (cell_of nC i) \<noteq> -1"
    and "\<And>v. in_grid nR nC v \<Longrightarrow> label cnt v \<noteq> -1 \<Longrightarrow> idx nC v \<in> set pushed"
    and "distinct pushed" and "distinct q" and "set q \<subseteq> set pushed"
    and "sorted (map (\<lambda>i. label cnt (cell_of nC i)) q)"
    and "\<And>v. q \<noteq> [] \<Longrightarrow> in_grid nR nC v \<Longrightarrow> label cnt v \<noteq> -1 \<Longrightarrow>
            label cnt v \<le> label cnt (cell_of nC (hd q)) + 1"
    and "\<And>u w. in_grid nR nC u \<Longrightarrow> label cnt u \<noteq> -1 \<Longrightarrow> idx nC u \<notin> set q \<Longrightarrow>
            (u, w) \<in> passages maze nR nC \<Longrightarrow> label cnt w \<noteq> -1 \<and> label cnt w \<le> label cnt u + 1"
  using assms unfolding bfs_inv_def prod.case by blast+

lemma bfs_invI:
  assumes "label cnt (nR - 1, nC - 1) = 0"
    and "\<And>v. in_grid nR nC v \<Longrightarrow> label cnt v \<noteq> -1 \<Longrightarrow>
            0 \<le> label cnt v \<and> ((nR - 1, nC - 1), v) \<in> passages maze nR nC ^^ nat (label cnt v)"
    and "\<And>i. i \<in> set pushed \<Longrightarrow> i < nR * nC \<and> label cnt (cell_of nC i) \<noteq> -1"
    and "\<And>v. in_grid nR nC v \<Longrightarrow> label cnt v \<noteq> -1 \<Longrightarrow> idx nC v \<in> set pushed"
    and "distinct pushed" and "distinct q" and "set q \<subseteq> set pushed"
    and "sorted (map (\<lambda>i. label cnt (cell_of nC i)) q)"
    and "\<And>v. q \<noteq> [] \<Longrightarrow> in_grid nR nC v \<Longrightarrow> label cnt v \<noteq> -1 \<Longrightarrow>
            label cnt v \<le> label cnt (cell_of nC (hd q)) + 1"
    and "\<And>u w. in_grid nR nC u \<Longrightarrow> label cnt u \<noteq> -1 \<Longrightarrow> idx nC u \<notin> set q \<Longrightarrow>
            (u, w) \<in> passages maze nR nC \<Longrightarrow> label cnt w \<noteq> -1 \<and> label cnt w \<le> label cnt u + 1"
  shows "bfs_inv maze nR nC (cnt, q, pushed)"
  unfolding bfs_inv_def prod.case
  using assms by blast

lemma bfs_inv_step:
  assumes inv: "bfs_inv maze nR nC (cnt, i # rest, pushed)"
    and res: "fold (bfs_visit maze nR nC (i div nC) (i mod nC)) directions (cnt, rest, pushed)
              = (cnt', q', pushed')"
  shows "bfs_inv maze nR nC (cnt', q', pushed')"
proof -
  let ?g = "(nR - 1, nC - 1)" and ?P = "passages maze nR nC"
  let ?u = "cell_of nC i"
  let ?lab = "\<lambda>i. label cnt (cell_of nC i)" and ?lab' = "\<lambda>i. label cnt' (cell_of nC i)"
  note J = bfs_invD[OF inv]
  have ip: "i \<in> set pushed" using J(9) by auto
  have ug: "in_grid nR nC ?u" using J(4)[OF ip] by (rule cell_of_in_grid)
  have ul: "label cnt ?u \<noteq> -1" using J(5)[OF ip] .
  have u0: "0 \<le> label cnt ?u" using J(2)[OF ug ul] .
  let ?l = "label cnt ?u"
  have "scan_result maze nR nC ?u directions (cnt, rest, pushed) (cnt', q', pushed')"
    using scan_result_fold[of cnt ?u maze nR nC directions rest pushed] ul u0 res
    by (simp add: cell_of_def)
  then have F1: "\<And>v. label cnt v \<noteq> -1 \<Longrightarrow> label cnt' v = label cnt v"
    and F2: "\<And>v. label cnt' v \<noteq> -1 \<Longrightarrow>
               label cnt v \<noteq> -1 \<or> (v \<in> succs maze nR nC ?u directions \<and> label cnt' v = ?l + 1)"
    and F3: "\<And>w. w \<in> succs maze nR nC ?u directions \<Longrightarrow> label cnt' w \<noteq> -1"
    and "\<exists>new. q' = rest @ new \<and> pushed' = pushed @ new \<and> distinct new \<and>
           (\<forall>i \<in> set new. \<exists>v. i = idx nC v \<and> in_grid nR nC v \<and>
                                label cnt v = -1 \<and> label cnt' v \<noteq> -1) \<and>
           (\<forall>v. label cnt v = -1 \<and> label cnt' v \<noteq> -1 \<longrightarrow> idx nC v \<in> set new)"
    unfolding scan_result_def prod.case by blast+
  then obtain new where N: "q' = rest @ new" "pushed' = pushed @ new" "distinct new"
    "\<And>i. i \<in> set new \<Longrightarrow> \<exists>v. i = idx nC v \<and> in_grid nR nC v \<and> label cnt v = -1 \<and>
                                 label cnt' v \<noteq> -1"
    "\<And>v. label cnt v = -1 \<Longrightarrow> label cnt' v \<noteq> -1 \<Longrightarrow> idx nC v \<in> set new"
    by blast
  have S: "w \<in> succs maze nR nC ?u directions \<longleftrightarrow> (?u, w) \<in> ?P" for w
    using ug by (rule succs_passages)
  have all_le: "label cnt v \<le> ?l + 1" if "in_grid nR nC v" "label cnt v \<noteq> -1" for v
    using J(11)[OF _ that] by simp
  have new_lab: "\<exists>v. j = idx nC v \<and> in_grid nR nC v \<and> label cnt v = -1 \<and> cell_of nC j = v \<and>
                      label cnt' v = ?l + 1 \<and> (?u, v) \<in> ?P"
    if "j \<in> set new" for j
  proof -
    from N(4)[OF that] obtain v where v: "j = idx nC v" "in_grid nR nC v" "label cnt v = -1"
      "label cnt' v \<noteq> -1" by blast
    from F2[OF v(4)] v(3) have "v \<in> succs maze nR nC ?u directions" "label cnt' v = ?l + 1"
      by simp_all
    with v cell_of_idx[OF v(2)] S show ?thesis by blast
  qed
  have new_lab': "?lab' j = ?l + 1" if "j \<in> set new" for j
    using new_lab[OF that] by metis
  have all_le': "label cnt' v \<le> ?l + 1" if "in_grid nR nC v" "label cnt' v \<noteq> -1" for v
  proof (cases "label cnt v = -1")
    case True
    with F2[OF that(2)] show ?thesis by simp
  next
    case False
    with all_le[OF that(1) False] F1[OF False] show ?thesis by simp
  qed
  have rest_sub: "set rest \<subseteq> set pushed" using J(9) by auto
  have rest_lab: "?lab' j = ?lab j" "?lab j \<noteq> -1" "in_grid nR nC (cell_of nC j)"
    if "j \<in> set rest" for j
  proof -
    from that rest_sub have jp: "j \<in> set pushed" by blast
    show "?lab j \<noteq> -1" using J(5)[OF jp] .
    then show "?lab' j = ?lab j" by (rule F1)
    show "in_grid nR nC (cell_of nC j)" using J(4)[OF jp] by (rule cell_of_in_grid)
  qed
  have disj: "set pushed \<inter> set new = {}"
  proof (rule ccontr)
    assume "set pushed \<inter> set new \<noteq> {}"
    then obtain j where j: "j \<in> set pushed" "j \<in> set new" by blast
    from new_lab[OF j(2)] obtain v where "label cnt v = -1" "cell_of nC j = v" by blast
    with J(5)[OF j(1)] show False by simp
  qed
  have sorted_old: "sorted (map ?lab rest)" "\<forall>x \<in> set (map ?lab rest). ?l \<le> x"
    using J(10) by simp_all
  show ?thesis
    unfolding N(1,2)
  proof (rule bfs_invI)
    show "label cnt' ?g = 0" using F1[of ?g] J(1) by simp
  next
    fix v
    assume v: "in_grid nR nC v" "label cnt' v \<noteq> -1"
    show "0 \<le> label cnt' v \<and> (?g, v) \<in> ?P ^^ nat (label cnt' v)"
    proof (cases "label cnt v = -1")
      case False
      with F1[OF False] J(2)[OF v(1) False] J(3)[OF v(1) False] show ?thesis by simp
    next
      case True
      with F2[OF v(2)] have vs: "(?u, v) \<in> ?P" and vl: "label cnt' v = ?l + 1"
        using S by simp_all
      have "(?g, ?u) \<in> ?P ^^ nat ?l" using J(3)[OF ug ul] .
      then have "(?g, v) \<in> ?P ^^ Suc (nat ?l)" using vs by (rule relpow_Suc_I)
      moreover have "nat (?l + 1) = Suc (nat ?l)" using u0 by simp
      ultimately show ?thesis using vl u0 by simp
    qed
  next
    fix j
    assume "j \<in> set (pushed @ new)"
    then consider "j \<in> set pushed" | "j \<in> set new" by auto
    then show "j < nR * nC \<and> ?lab' j \<noteq> -1"
    proof cases
      case 1
      with J(4)[OF 1] J(5)[OF 1] F1[of "cell_of nC j"] show ?thesis by simp
    next
      case 2
      from new_lab[OF 2] obtain v where v: "j = idx nC v" "in_grid nR nC v" "cell_of nC j = v"
        "label cnt' v = ?l + 1" by blast
      with idx_lt[OF v(2)] u0 show ?thesis by simp
    qed
  next
    fix v
    assume v: "in_grid nR nC v" "label cnt' v \<noteq> -1"
    show "idx nC v \<in> set (pushed @ new)"
    proof (cases "label cnt v = -1")
      case True
      with N(5)[OF True v(2)] show ?thesis by simp
    next
      case False
      with J(6)[OF v(1) False] show ?thesis by simp
    qed
  next
    show "distinct (pushed @ new)" using J(7) N(3) disj by simp
  next
    have "set rest \<inter> set new = {}" using rest_sub disj by blast
    moreover have "distinct rest" using J(8) by simp
    ultimately show "distinct (rest @ new)" using N(3) by simp
  next
    show "set (rest @ new) \<subseteq> set (pushed @ new)" using rest_sub by auto
  next
    have 1: "map ?lab' rest = map ?lab rest" using rest_lab(1) by simp
    have 2: "map ?lab' new = map (\<lambda>_. ?l + 1) new"
      using new_lab' by (intro map_cong) simp_all
    have 3: "\<forall>x \<in> set (map ?lab rest). x \<le> ?l + 1"
      using rest_lab(2,3) all_le by auto
    have 4: "sorted (map (\<lambda>_. ?l + 1) new)" by (simp add: map_replicate_const)
    show "sorted (map ?lab' (rest @ new))"
      unfolding map_append 1 2 using sorted_old(1) 3 4
      by (auto simp: sorted_append)
  next
    fix v
    assume q: "rest @ new \<noteq> []" and v: "in_grid nR nC v" "label cnt' v \<noteq> -1"
    have "hd (rest @ new) \<in> set rest \<or> hd (rest @ new) \<in> set new"
      using q by (metis Un_iff hd_in_set set_append)
    then have "?l \<le> ?lab' (hd (rest @ new))"
    proof
      assume h: "hd (rest @ new) \<in> set rest"
      with sorted_old(2) have "?l \<le> ?lab (hd (rest @ new))" by simp
      with rest_lab(1)[OF h] show ?thesis by simp
    next
      assume "hd (rest @ new) \<in> set new"
      from new_lab'[OF this] show ?thesis by simp
    qed
    with all_le'[OF v] show "label cnt' v \<le> ?lab' (hd (rest @ new)) + 1" by simp
  next
    fix x w
    assume x: "in_grid nR nC x" "label cnt' x \<noteq> -1" "idx nC x \<notin> set (rest @ new)"
      and xw: "(x, w) \<in> ?P"
    have wg: "in_grid nR nC w" using xw passages_grid by blast
    have xl: "label cnt x \<noteq> -1"
    proof
      assume "label cnt x = -1"
      from N(5)[OF this x(2)] x(3) show False by simp
    qed
    show "label cnt' w \<noteq> -1 \<and> label cnt' w \<le> label cnt' x + 1"
    proof (cases "x = ?u")
      case True
      with xw S have "w \<in> succs maze nR nC ?u directions" by simp
      then have wl: "label cnt' w \<noteq> -1" by (rule F3)
      with all_le'[OF wg wl] F1[OF ul] True show ?thesis by simp
    next
      case False
      have "idx nC x \<noteq> i"
      proof
        assume "idx nC x = i"
        then have "cell_of nC i = x" using cell_of_idx[OF x(1)] by simp
        with False show False by simp
      qed
      with x(3) have "idx nC x \<notin> set (i # rest)" by simp
      from J(12)[OF x(1) xl this xw] F1[OF xl] F1[of w] show ?thesis by simp
    qed
  qed
qed

lemma bfs_loop_inv:
  assumes "bfs_inv maze nR nC st"
  shows "bfs_inv maze nR nC (bfs_loop maze nR nC st) \<and> fst (snd (bfs_loop maze nR nC st)) = []"
  using assms
proof (induction maze nR nC st rule: bfs_loop.induct)
  case (1 maze nR nC cnt pushed)
  then show ?case by (simp add: bfs_loop.simps)
next
  case (2 maze nR nC cnt currentIdx q pushed)
  obtain cnt' q' pushed' where
    res: "fold (bfs_visit maze nR nC (currentIdx div nC) (currentIdx mod nC)) directions
           (cnt, q, pushed) = (cnt', q', pushed')"
    by (cases "fold (bfs_visit maze nR nC (currentIdx div nC) (currentIdx mod nC)) directions
           (cnt, q, pushed)")
  from bfs_inv_step[OF "2.prems" res] have "bfs_inv maze nR nC (cnt', q', pushed')" .
  with "2.IH" res show ?case by (simp add: bfs_loop.simps)
qed

lemma relpow_sym:
  assumes "sym E" "(a, b) \<in> E ^^ n"
  shows "(b, a) \<in> E ^^ n"
  using assms(2)
proof (induction n arbitrary: b)
  case 0
  then show ?case by simp
next
  case (Suc n)
  then obtain y where y: "(a, y) \<in> E ^^ n" "(y, b) \<in> E" by auto
  from assms(1) y(2) have "(b, y) \<in> E" by (meson symD)
  then show ?case using Suc.IH[OF y(1)] by (rule relpow_Suc_I2)
qed

lemma shortest_hops_sym:
  assumes "sym E" "shortest_hops E a b n"
  shows "shortest_hops E b a n"
  using assms relpow_sym[OF assms(1)] unfolding shortest_hops_def by blast

lemma bfs_inv_final:
  assumes inv: "bfs_inv maze nR nC (cnt, [], pushed)"
    and pos: "0 < nR" "0 < nC"
  shows "label cnt (nR - 1, nC - 1) = 0"
    and "distinct pushed"
    and "\<And>v. in_grid nR nC v \<Longrightarrow> ((nR - 1, nC - 1), v) \<in> (passages maze nR nC)\<^sup>* \<Longrightarrow>
           0 \<le> label cnt v \<and>
           shortest_hops (passages maze nR nC) (nR - 1, nC - 1) v (nat (label cnt v))"
    and "\<And>v. in_grid nR nC v \<Longrightarrow> ((nR - 1, nC - 1), v) \<notin> (passages maze nR nC)\<^sup>* \<Longrightarrow>
           label cnt v = -1"
proof -
  let ?g = "(nR - 1, nC - 1)" and ?P = "passages maze nR nC"
  note J = bfs_invD[OF inv]
  have gg: "in_grid nR nC ?g" using pos by (simp add: in_grid_def)
  show "label cnt ?g = 0" by (rule J(1))
  show "distinct pushed" by (rule J(7))
  have closed: "label cnt w \<noteq> -1 \<and> label cnt w \<le> label cnt u + 1"
    if "in_grid nR nC u" "label cnt u \<noteq> -1" "(u, w) \<in> ?P" for u w
    using J(12)[OF that(1,2) _ that(3)] by simp
  have reach: "in_grid nR nC v \<and> label cnt v \<noteq> -1" if "(?g, v) \<in> ?P\<^sup>*" for v
    using that
  proof (induction rule: rtrancl_induct)
    case base
    show ?case using gg J(1) by simp
  next
    case (step y z)
    from closed[OF _ _ step.hyps(2)] step.IH passages_grid[OF step.hyps(2)]
    show ?case by simp
  qed
  have lower: "label cnt v \<le> int m" if "(?g, v) \<in> ?P ^^ m" for v m
    using that
  proof (induction m arbitrary: v)
    case 0
    then show ?case using J(1) by simp
  next
    case (Suc m)
    then obtain y where y: "(?g, y) \<in> ?P ^^ m" "(y, v) \<in> ?P" by auto
    from y(1) have "(?g, y) \<in> ?P\<^sup>*" by (rule relpow_imp_rtrancl)
    from reach[OF this] closed[OF _ _ y(2)] Suc.IH[OF y(1)] show ?case by simp
  qed
  show "0 \<le> label cnt v \<and> shortest_hops ?P ?g v (nat (label cnt v))"
    if v: "in_grid nR nC v" "(?g, v) \<in> ?P\<^sup>*" for v
  proof -
    from reach[OF v(2)] have l: "label cnt v \<noteq> -1" by simp
    have "nat (label cnt v) \<le> m" if "(?g, v) \<in> ?P ^^ m" for m
      using lower[OF that] by simp
    with J(2)[OF v(1) l] J(3)[OF v(1) l] show ?thesis
      unfolding shortest_hops_def by blast
  qed
  show "label cnt v = -1" if v: "in_grid nR nC v" "(?g, v) \<notin> ?P\<^sup>*" for v
  proof (rule ccontr)
    assume l: "label cnt v \<noteq> -1"
    from J(3)[OF v(1) l] have "(?g, v) \<in> ?P\<^sup>*" by (rule relpow_imp_rtrancl)
    with v(2) show False ..
  qed
qed

lemma not_VISITED_and_dir: "dir \<in> set directions \<Longrightarrow> NOT VISITED AND dir = dir"
  by (auto simp: directions_def wall_defs VISITED_def)

lemma passages_solveInit:
  "passages (snd (solveInit cnt0 maze nR nC)) nR nC = passages maze nR nC"
proof -
  have "(snd (solveInit cnt0 maze nR nC) r c AND dir = 0) = (maze r c AND dir = 0)"
    if "dir \<in> set directions" for r c dir
  proof -
    have "(maze r c AND NOT VISITED) AND dir = maze r c AND (NOT VISITED AND dir)"
      by (simp add: and.assoc)
    also have "\<dots> = maze r c AND dir" using not_VISITED_and_dir[OF that] by simp
    finally show ?thesis by (simp add: solveInit_eq)
  qed
  then show ?thesis unfolding passages_def by blast
qed

lemma bfs_inv_init:
  assumes pos: "0 < nR" "0 < nC"
    and un: "\<And>r c. r < nR \<Longrightarrow> c < nC \<Longrightarrow> cnt1 r c = -1"
  shows "bfs_inv maze nR nC
           (set_cell cnt1 (nR - 1) (nC - 1) 0, [(nR - 1) * nC + (nC - 1)],
            [(nR - 1) * nC + (nC - 1)])"
proof -
  let ?g = "(nR - 1, nC - 1)" and ?cnt = "set_cell cnt1 (nR - 1) (nC - 1) 0"
  have gg: "in_grid nR nC ?g" using pos by (simp add: in_grid_def)
  have ig: "(nR - 1) * nC + (nC - 1) = idx nC ?g" by (simp add: idx_def)
  have lab: "label ?cnt v = (if v = ?g then 0 else -1)" if "in_grid nR nC v" for v
  proof -
    have "label cnt1 v = -1" using that un[of "fst v" "snd v"] by (simp add: in_grid_def label_def)
    then show ?thesis by (simp only: label_set_cell)
  qed
  have only: "v = ?g" if "in_grid nR nC v" "label ?cnt v \<noteq> -1" for v
    using that lab by (metis)
  show ?thesis
    unfolding ig
  proof (rule bfs_invI)
    show "label ?cnt ?g = 0" using lab[OF gg] by simp
  next
    fix v assume v: "in_grid nR nC v" "label ?cnt v \<noteq> -1"
    from only[OF v] lab[OF gg]
    show "0 \<le> label ?cnt v \<and> (?g, v) \<in> passages maze nR nC ^^ nat (label ?cnt v)" by simp
  next
    fix i assume "i \<in> set [idx nC ?g]"
    then have i: "i = idx nC ?g" by simp
    with idx_lt[OF gg] cell_of_idx[OF gg] lab[OF gg]
    show "i < nR * nC \<and> label ?cnt (cell_of nC i) \<noteq> -1" by simp
  next
    fix v assume v: "in_grid nR nC v" "label ?cnt v \<noteq> -1"
    from only[OF v] show "idx nC v \<in> set [idx nC ?g]" by simp
  next
    fix v assume v: "in_grid nR nC v" "label ?cnt v \<noteq> -1"
    from only[OF v] cell_of_idx[OF gg] lab[OF gg]
    show "label ?cnt v \<le> label ?cnt (cell_of nC (hd [idx nC ?g])) + 1" by simp
  next
    fix u w assume u: "in_grid nR nC u" "label ?cnt u \<noteq> -1" "idx nC u \<notin> set [idx nC ?g]"
    from only[OF u(1,2)] u(3) have False by simp
    then show "label ?cnt w \<noteq> -1 \<and> label ?cnt w \<le> label ?cnt u + 1" ..
  qed simp_all
qed

lemma labelDistances_inv:
  assumes "1 \<le> nR" and "nR \<le> MAX_ROWS" and "1 \<le> nC" and "nC \<le> MAX_COLS"
  shows "\<exists>cnt pushed. labelDistances cnt0 maze nR nC = (cnt, [], pushed) \<and>
           bfs_inv (snd (solveInit cnt0 maze nR nC)) nR nC (cnt, [], pushed)"
proof -
  obtain cnt1 maze1 where init: "solveInit cnt0 maze nR nC = (cnt1, maze1)"
    by (cases "solveInit cnt0 maze nR nC")
  have c1: "cnt1 = (\<lambda>r c. if r < nR \<and> c < nC then -1 else cnt0 r c)"
    using init by (simp add: solveInit_eq)
  have un: "cnt1 r c = -1" if "r < nR" "c < nC" for r c
    using that by (simp add: c1)
  from assms have pos: "0 < nR" "0 < nC" by simp_all
  have e: "(nR + 2 ^ 32 - 1) mod 2 ^ 32 = nR - 1" "(nC + 2 ^ 32 - 1) mod 2 ^ 32 = nC - 1"
    using assms end_cell_valid[of nR] end_cell_valid[of nC]
    by (simp_all add: MAX_ROWS_def MAX_COLS_def)
  let ?st0 = "(set_cell cnt1 (nR - 1) (nC - 1) 0, [(nR - 1) * nC + (nC - 1)],
               [(nR - 1) * nC + (nC - 1)])"
  have ld: "labelDistances cnt0 maze nR nC = bfs_loop maze1 nR nC ?st0"
    unfolding labelDistances_def e init by (simp add: Let_def)
  obtain cnt q pushed where fin: "bfs_loop maze1 nR nC ?st0 = (cnt, q, pushed)"
    by (cases "bfs_loop maze1 nR nC ?st0")
  have "bfs_inv maze1 nR nC ?st0" using pos un by (rule bfs_inv_init)
  from bfs_loop_inv[OF this] have a: "bfs_inv maze1 nR nC (cnt, q, pushed) \<and> q = []"
    unfolding fin fst_conv snd_conv .
  then have q: "q = []" by blast
  from a have inv: "bfs_inv maze1 nR nC (cnt, [], pushed)" unfolding q by blast
  from ld fin q inv show ?thesis by (simp add: init)
qed

section \<open>Path reconstruction\<close>

lemma walk_avoiding:
  assumes "successively (\<lambda>x y. (x, y) \<in> E) p" and "p \<noteq> []" and "a \<notin> set p"
  shows "(hd p, last p) \<in> (E - {(a, x), (x, a)})\<^sup>*"
  using assms
proof (induction p)
  case Nil
  then show ?case by simp
next
  case (Cons u p)
  show ?case
  proof (cases p)
    case Nil
    then show ?thesis by simp
  next
    case (Cons v p')
    with Cons.prems have e: "(u, v) \<in> E" and s: "successively (\<lambda>x y. (x, y) \<in> E) p"
      and n: "a \<notin> set p" "u \<noteq> a" "v \<noteq> a"
      by auto
    from Cons.IH[OF s _ n(1)] Cons have "(v, last p) \<in> (E - {(a, x), (x, a)})\<^sup>*" by simp
    moreover from e n have "(u, v) \<in> E - {(a, x), (x, a)}" by blast
    ultimately have "(u, last p) \<in> (E - {(a, x), (x, a)})\<^sup>*"
      by (rule converse_rtrancl_into_rtrancl[rotated])
    with Cons show ?thesis by simp
  qed
qed

lemma simple_path_unique:
  assumes s: "sym E" and f: "forest E"
    and p: "simple_path E a b p" and q: "simple_path E a b q"
  shows "p = q"
  using p q
proof (induction p arbitrary: a q)
  case Nil
  then show ?case by (simp add: simple_path_def)
next
  case (Cons u p)
  from Cons.prems(1) have ua: "u = a" by (simp add: simple_path_def)
  from Cons.prems(2) obtain q' where q: "q = a # q'"
    by (cases q) (auto simp: simple_path_def)
  show ?case
  proof (cases p)
    case Nil
    with Cons.prems(1) ua have ab: "a = b" by (simp add: simple_path_def)
    have "q' = []"
    proof (rule ccontr)
      assume "q' \<noteq> []"
      with Cons.prems(2) q have "last q' = b" "a \<notin> set q'" by (auto simp: simple_path_def)
      with \<open>q' \<noteq> []\<close> ab show False using last_in_set by metis
    qed
    with Nil ua q show ?thesis by simp
  next
    case (Cons x ps)
    note pc = Cons
    from Cons.prems(1) ua pc have P: "(a, x) \<in> E" "a \<notin> set p" "last p = b" "distinct p"
      "successively (\<lambda>x y. (x, y) \<in> E) p" "hd p = x"
      by (auto simp: simple_path_def)
    have sp: "simple_path E x b p" using P pc by (simp add: simple_path_def)
    from P(2,3) pc have ab: "a \<noteq> b" using last_in_set[of p] by force
    have "q' \<noteq> []" using Cons.prems(2) q ab by (auto simp: simple_path_def)
    then obtain y qs where qc: "q' = y # qs" by (cases q') auto
    from Cons.prems(2) q qc have Q: "(a, y) \<in> E" "a \<notin> set q'" "last q' = b" "distinct q'"
      "successively (\<lambda>x y. (x, y) \<in> E) q'" "hd q' = y"
      by (auto simp: simple_path_def)
    have sq: "simple_path E y b q'" using Q qc by (simp add: simple_path_def)
    have "x = y"
    proof (rule ccontr)
      assume xy: "x \<noteq> y"
      let ?E = "E - {(a, x), (x, a)}"
      have sE: "sym ?E" using s by (auto simp: sym_def)
      have 1: "(x, b) \<in> ?E\<^sup>*"
        using walk_avoiding[OF P(5) _ P(2), of x] pc P(3,6) by simp
      have 2: "(y, b) \<in> ?E\<^sup>*"
        using walk_avoiding[OF Q(5) _ Q(2), of x] qc Q(3,6) by simp
      from P(2) pc have "x \<noteq> a" by auto
      with Q(1) xy have 3: "(a, y) \<in> ?E" by blast
      from 1 have "(b, x) \<in> ?E\<^sup>*" using sym_rtrancl[OF sE] by (simp add: sym_def)
      with 3 2 have "(a, x) \<in> ?E\<^sup>*" by (meson converse_rtrancl_into_rtrancl rtrancl_trans)
      with f P(1) show False by (auto simp: forest_def)
    qed
    with sp sq have "p = q'" using Cons.IH by blast
    with ua q show ?thesis by simp
  qed
qed

lemma or_VISITED_and_dir: "dir \<in> set directions \<Longrightarrow> (x OR VISITED) AND dir = x AND dir"
proof -
  assume "dir \<in> set directions"
  then have "VISITED AND dir = 0" by (auto simp: directions_def wall_defs VISITED_def)
  then show ?thesis by (simp add: bit.conj_disj_distrib2)
qed

lemma passages_mark:
  "passages (set_cell maze r c (maze r c OR VISITED)) nR nC = passages maze nR nC"
proof -
  have "(set_cell maze r c (maze r c OR VISITED) r' c' AND dir = 0) = (maze r' c' AND dir = 0)"
    if "dir \<in> set directions" for r' c' dir
    using or_VISITED_and_dir[OF that] by (simp add: set_cell_apply)
  then show ?thesis unfolding passages_def by blast
qed

lemma find_next_None:
  assumes "find_next maze cnt nR nC r c dirs = None" and "dir \<in> set dirs"
    and "maze r c AND dir = 0" and "getNeighbor r c dir nR nC = Some (r2, c2)"
  shows "cnt r2 c2 \<noteq> cnt r c - 1"
  using assms
  by (induction dirs) (auto split: if_splits option.splits)

lemma find_next_passage:
  assumes "r < nR" "c < nC" and "find_next maze cnt nR nC r c directions = Some (r2, c2)"
  shows "((r, c), (r2, c2)) \<in> passages maze nR nC \<and> cnt r2 c2 = cnt r c - 1"
  using find_next_Some[OF assms(3)] assms(1,2) unfolding passages_def by blast

lemma find_next_exists:
  assumes "((r, c), w) \<in> passages maze nR nC" and "label cnt w = cnt r c - 1"
  shows "\<exists>r2 c2. find_next maze cnt nR nC r c directions = Some (r2, c2)"
proof (cases "find_next maze cnt nR nC r c directions")
  case None
  from assms(1) obtain dir where d: "dir \<in> set directions" "maze r c AND dir = 0"
    "getNeighbor r c dir nR nC = Some w"
    unfolding passages_def by blast
  from find_next_None[OF None d(1,2), of "fst w" "snd w"] d(3) assms(2)
  show ?thesis by (simp add: label_def)
next
  case (Some a)
  then show ?thesis by (cases a) simp
qed

lemma trace_loop_path:
  assumes "passages maze nR nC = P" and "r < nR" and "c < nC" and "0 \<le> cnt r c"
    and "\<And>v. in_grid nR nC v \<Longrightarrow> 0 < label cnt v \<Longrightarrow>
           \<exists>w. (v, w) \<in> P \<and> label cnt w = label cnt v - 1"
  shows "\<exists>p. trace_loop cnt nR nC maze r c =
               (Solved, \<lambda>r' c'. if (r', c') \<in> set p then maze r' c' OR VISITED else maze r' c') \<and>
             successively (\<lambda>x y. (x, y) \<in> P) ((r, c) # p) \<and>
             successively (\<lambda>x y. label cnt y = label cnt x - 1) ((r, c) # p) \<and>
             length p = nat (cnt r c) \<and> label cnt (last ((r, c) # p)) = 0"
  using assms
proof (induction cnt nR nC maze r c rule: trace_loop.induct)
  case (1 cnt nR nC maze r c)
  note P = "1.prems"(1) and g = "1.prems"(2,3) and nn = "1.prems"(4) and step = "1.prems"(5)
  show ?case
  proof (cases "cnt r c = 0")
    case True
    have "trace_loop cnt nR nC maze r c = (Solved, maze)"
      by (subst trace_loop.simps) (simp add: True)
    with True show ?thesis by (intro exI[of _ "[]"]) (simp add: label_def)
  next
    case False
    with nn have pos: "0 < label cnt (r, c)" by (simp add: label_def)
    have gr: "in_grid nR nC (r, c)" using g by (simp add: in_grid_def)
    from step[OF gr pos] obtain w where w: "((r, c), w) \<in> P" "label cnt w = cnt r c - 1"
      by (auto simp: label_def)
    from find_next_exists[of r c w maze nR nC cnt] w P obtain r2 c2 where
      fn: "find_next maze cnt nR nC r c directions = Some (r2, c2)" by blast
    from find_next_passage[OF g fn] P have e: "((r, c), (r2, c2)) \<in> P"
      and l: "cnt r2 c2 = cnt r c - 1" by simp_all
    from e P have g2: "r2 < nR" "c2 < nC" using passages_in_grid by blast+
    let ?m2 = "set_cell maze r2 c2 (maze r2 c2 OR VISITED)"
    have P2: "passages ?m2 nR nC = P" using P by (simp add: passages_mark)
    from l nn False have nn2: "0 \<le> cnt r2 c2" by simp
    from "1.IH"[OF False fn refl P2 g2 nn2 step] obtain p where
      t: "trace_loop cnt nR nC ?m2 r2 c2 =
            (Solved, \<lambda>r' c'. if (r', c') \<in> set p then ?m2 r' c' OR VISITED else ?m2 r' c')"
      and s1: "successively (\<lambda>x y. (x, y) \<in> P) ((r2, c2) # p)"
      and s2: "successively (\<lambda>x y. label cnt y = label cnt x - 1) ((r2, c2) # p)"
      and len: "length p = nat (cnt r2 c2)"
      and lst: "label cnt (last ((r2, c2) # p)) = 0"
      by blast
    have m: "(\<lambda>r' c'. if (r', c') \<in> set p then ?m2 r' c' OR VISITED else ?m2 r' c') =
             (\<lambda>r' c'. if (r', c') \<in> set ((r2, c2) # p) then maze r' c' OR VISITED else maze r' c')"
      by (intro ext) (auto simp: set_cell_apply)
    have "trace_loop cnt nR nC maze r c = trace_loop cnt nR nC ?m2 r2 c2"
      by (subst trace_loop.simps) (simp add: False fn)
    with t m have t': "trace_loop cnt nR nC maze r c =
        (Solved, \<lambda>r' c'. if (r', c') \<in> set ((r2, c2) # p) then maze r' c' OR VISITED else maze r' c')"
      by simp
    from len l nn False have len': "length ((r2, c2) # p) = nat (cnt r c)" by simp
    from s1 e have s1': "successively (\<lambda>x y. (x, y) \<in> P) ((r, c) # (r2, c2) # p)" by simp
    from s2 l have s2': "successively (\<lambda>x y. label cnt y = label cnt x - 1) ((r, c) # (r2, c2) # p)"
      by (simp add: label_def)
    from lst have lst': "label cnt (last ((r, c) # (r2, c2) # p)) = 0" by simp
    from t' s1' s2' len' lst' show ?thesis by blast
  qed
qed

lemma countdown_less:
  assumes "successively (\<lambda>x y. f y = f x - (1::int)) (a # p)" and "x \<in> set p"
  shows "f x < f a"
  using assms
proof (induction p arbitrary: a)
  case Nil
  then show ?case by simp
next
  case (Cons b p)
  from Cons.prems(1) have b: "f b = f a - 1" and s: "successively (\<lambda>x y. f y = f x - 1) (b # p)"
    by simp_all
  show ?case
  proof (cases "x = b")
    case True
    with b show ?thesis by simp
  next
    case False
    with Cons.prems(2) have "x \<in> set p" by simp
    from Cons.IH[OF s this] b show ?thesis by simp
  qed
qed

lemma countdown_distinct:
  assumes "successively (\<lambda>x y. f y = f x - (1::int)) p"
  shows "distinct p"
  using assms
proof (induction p)
  case Nil
  then show ?case by simp
next
  case (Cons a p)
  from Cons.prems have "successively (\<lambda>x y. f y = f x - 1) p"
    by (cases p) simp_all
  then have "distinct p" by (rule Cons.IH)
  moreover have "a \<notin> set p" using countdown_less[OF Cons.prems] by force
  ultimately show ?case by simp
qed

lemma walk_in_grid:
  assumes "successively (\<lambda>x y. (x, y) \<in> passages maze nR nC) (a # p)" and "in_grid nR nC a"
  shows "\<forall>x \<in> set (a # p). in_grid nR nC x"
  using assms
proof (induction p arbitrary: a)
  case Nil
  then show ?case by simp
next
  case (Cons b p)
  from Cons.prems(1) have e: "(a, b) \<in> passages maze nR nC"
    and s: "successively (\<lambda>x y. (x, y) \<in> passages maze nR nC) (b # p)" by simp_all
  from passages_grid[OF e] have "in_grid nR nC b" by simp
  from Cons.IH[OF s this] Cons.prems(2) show ?case by simp
qed

lemma pred_on_shortest_walk:
  assumes s: "sym P"
    and sh: "\<And>v. in_grid nR nC v \<Longrightarrow> label cnt v \<noteq> -1 \<Longrightarrow>
               0 \<le> label cnt v \<and> shortest_hops P g v (nat (label cnt v))"
    and un: "\<And>v. in_grid nR nC v \<Longrightarrow> (g, v) \<in> P\<^sup>* \<Longrightarrow> label cnt v \<noteq> -1"
    and gr: "\<And>u w. (u, w) \<in> P \<Longrightarrow> in_grid nR nC u \<and> in_grid nR nC w"
    and v: "in_grid nR nC v" "0 < label cnt v"
  shows "\<exists>w. (v, w) \<in> P \<and> label cnt w = label cnt v - 1"
proof -
  from v have "label cnt v \<noteq> -1" by simp
  from sh[OF v(1) this] have a: "(g, v) \<in> P ^^ nat (label cnt v)"
    and least: "\<And>m. (g, v) \<in> P ^^ m \<Longrightarrow> nat (label cnt v) \<le> m"
    by (simp_all add: shortest_hops_def)
  from v(2) obtain m where m: "nat (label cnt v) = Suc m" by (cases "nat (label cnt v)") auto
  from a m obtain w where w: "(g, w) \<in> P ^^ m" "(w, v) \<in> P" by auto
  from gr[OF w(2)] have gw: "in_grid nR nC w" by simp
  from w(1) have "(g, w) \<in> P\<^sup>*" by (rule relpow_imp_rtrancl)
  from un[OF gw this] have lw: "label cnt w \<noteq> -1" .
  from sh[OF gw lw] have b: "0 \<le> label cnt w" "(g, w) \<in> P ^^ nat (label cnt w)"
    and leastw: "\<And>k. (g, w) \<in> P ^^ k \<Longrightarrow> nat (label cnt w) \<le> k"
    by (simp_all add: shortest_hops_def)
  from leastw[OF w(1)] have 1: "nat (label cnt w) \<le> m" .
  from b(2) w(2) have "(g, v) \<in> P ^^ Suc (nat (label cnt w))" by auto
  from least[OF this] m have 2: "m \<le> nat (label cnt w)" by simp
  from 1 2 m b(1) v(2) have "label cnt w = label cnt v - 1" by linarith
  moreover from s w(2) have "(v, w) \<in> P" by (rule symD)
  ultimately show ?thesis by blast
qed

lemma VISITED_test: "(x OR VISITED) AND VISITED \<noteq> 0" "(x AND NOT VISITED) AND VISITED = 0"
  by (simp_all add: VISITED_def and.assoc bit.conj_disj_distrib2)

section \<open>A grid with a one-way passage\<close>

lemma no_walk_from_walled:
  assumes "\<forall>dir \<in> set directions. maze r c AND dir \<noteq> 0" and "(r, c) \<noteq> b"
  shows "((r, c), b) \<notin> (passages maze nR nC)\<^sup>*"
proof
  assume "((r, c), b) \<in> (passages maze nR nC)\<^sup>*"
  with assms(2) obtain w where "((r, c), w) \<in> passages maze nR nC"
    by (auto elim: converse_rtranclE)
  with assms(1) show False by (auto simp: passages_def)
qed

lemma find_next_walled:
  assumes "\<forall>dir \<in> set directions. maze r c AND dir \<noteq> 0"
  shows "find_next maze cnt nR nC r c directions = None"
  using assms by (simp add: directions_def)

lemma trace_loop_error:
  assumes "cnt r c \<noteq> 0" and "find_next maze cnt nR nC r c directions = None"
  shows "trace_loop cnt nR nC maze r c = (TraceError, maze)"
  by (subst trace_loop.simps) (simp add: assms)

lemma solveMazeBFS_labelled:
  assumes "1 \<le> nR" and "nR \<le> MAX_ROWS" and "1 \<le> nC" and "nC \<le> MAX_COLS"
    and "fst (labelDistances cnt0 maze nR nC) 0 0 \<noteq> -1"
  shows "solveMazeBFS cnt0 maze nR nC =
         trace_loop (fst (labelDistances cnt0 maze nR nC)) nR nC
           (set_cell (snd (solveInit cnt0 maze nR nC)) 0 0
              (snd (solveInit cnt0 maze nR nC) 0 0 OR VISITED)) 0 0"
proof -
  obtain cnt q pushed where ld: "labelDistances cnt0 maze nR nC = (cnt, q, pushed)"
    by (cases "labelDistances cnt0 maze nR nC")
  obtain cnt1 maze1 where init: "solveInit cnt0 maze nR nC = (cnt1, maze1)"
    by (cases "solveInit cnt0 maze nR nC")
  from assms(5) ld have st: "cnt 0 0 \<noteq> -1" by simp
  have e: "(nR + 2 ^ 32 - 1) mod 2 ^ 32 = nR - 1" "(nC + 2 ^ 32 - 1) mod 2 ^ 32 = nC - 1"
    using assms(1-4) end_cell_valid[of nR] end_cell_valid[of nC]
    by (simp_all add: MAX_ROWS_def MAX_COLS_def)
  have "\<not> nR \<le> nR - 1" "\<not> nC \<le> nC - 1" using assms(1,3) by arith+
  then show ?thesis
    unfolding solveMazeBFS_def e ld init using st
    by (simp add: Let_def)
qed

lemma one_way_label:
  "fst (labelDistances zero_count one_way_grid 1 2) 0 0 = 1"
  by (simp add: labelDistances_def solveInit_eq bfs_loop.simps bfs_visit_def directions_def
      wall_defs VISITED_def set_cell_apply getNeighbor_def neighborOffset_def
      static_cast_int_def Let_def one_way_grid_def)

lemma one_way_walled: "\<forall>dir \<in> set directions. one_way_grid 0 0 AND dir \<noteq> 0"
  by (simp add: one_way_grid_def directions_def wall_defs)

lemma one_way_passage: "((0, 1), (0, 0)) \<in> passages one_way_grid 1 2"
proof -
  have "getNeighbor 0 1 WALL_UP_LEFT 1 2 = Some (0, 0)"
    by (simp add: getNeighbor_def neighborOffset_def static_cast_int_def wall_defs Let_def)
  moreover have "one_way_grid 0 1 AND WALL_UP_LEFT = 0"
    by (simp add: one_way_grid_def wall_defs)
  moreover have "WALL_UP_LEFT \<in> set directions" by (simp add: directions_def)
  ultimately show ?thesis unfolding passages_def by auto
qed

section \<open>Neighbor symmetry\<close>

text \<open>
  Claim C2. For all dimensions (any \<open>uint32_t\<close> values \<open>nR\<close>, \<open>nC\<close>), every cell
  \<open>(r, c)\<close> inside the grid and each of the six directions: when \<open>getNeighbor\<close> succeeds
  from \<open>(r, c)\<close> in direction \<open>dir\<close> with \<open>(r2, c2)\<close>, it succeeds from \<open>(r2, c2)\<close> in the
  opposite direction and yields exactly \<open>(r, c)\<close>.
\<close>

theorem getNeighbor_opposite_returns:
  assumes "nR < 2 ^ 32" and "nC < 2 ^ 32"
    and "r < nR" and "c < nC"
    and "dir \<in> set directions"
    and "getNeighbor r c dir nR nC = Some (r2, c2)"
  shows "getNeighbor r2 c2 (getOppositeWall dir) nR nC = Some (r, c)"
  using assms(6,3,4,1,2) by (rule getNeighbor_opp)

theorem getNeighbor_opposite_returns_witness:
  "getNeighbor 1 2 WALL_UP_RIGHT 3 4 = Some (0, 3) \<and>
   getNeighbor 0 3 (getOppositeWall WALL_UP_RIGHT) 3 4 = Some (1, 2)"
proof -
  have dir: "WALL_UP_RIGHT \<in> set directions" by (simp add: directions_def)
  have nb: "getNeighbor 1 2 WALL_UP_RIGHT 3 4 = Some (0, 3)"
    by (simp add: getNeighbor_def neighborOffset_def static_cast_int_def wall_defs Let_def)
  have "getNeighbor 0 3 (getOppositeWall WALL_UP_RIGHT) 3 4 = Some (1, 2)"
    using getNeighbor_opposite_returns[of 3 4 1 2 WALL_UP_RIGHT 0 3] dir nb by simp
  with nb show ?thesis by simp
qed

section \<open>The generated maze is a spanning tree\<close>

text \<open>
  Claim C1. For every supported pair of dimensions (\<open>1 \<le> nR \<le> MAX_ROWS\<close>,
  \<open>1 \<le> nC \<le> MAX_COLS\<close>), whatever the array held before and whatever permutation the
  shuffle applies to the candidate list, \<open>generateMaze\<close> returns without the warning, and
  the open-passage graph of the grid is connected and acyclic with exactly
  \<open>nR * nC - 1\<close> removed walls: a spanning tree of the grid.
\<close>

theorem generateMaze_spanning_tree:
  assumes "1 \<le> nR" and "nR \<le> MAX_ROWS" and "1 \<le> nC" and "nC \<le> MAX_COLS"
    and "mset (rng (internalWalls nR nC)) = mset (internalWalls nR nC)"
  shows "\<exists>maze'. generateMaze maze nR nC rng = Some (maze', False) \<and> spanning_tree maze' nR nC"
proof -
  from generateMaze_result[of nR nC rng maze, OF assms(1,3,2,4,5)] obtain maze' dsu' where
    res: "generateMaze maze nR nC rng = Some (maze', False)"
    and inv: "gen_inv nR nC (maze', dsu', nR * nC - 1)"
    and con: "connected_passages maze' nR nC"
    by blast
  from inv have "forest (passages maze' nR nC)"
    "card (undirected (passages maze' nR nC)) = nR * nC - 1"
    by (simp_all add: gen_inv_def)
  with res con show ?thesis by (auto simp: spanning_tree_def)
qed

theorem generateMaze_spanning_tree_witness:
  "\<exists>maze'. generateMaze (\<lambda>_ _. 0) 2 3 rev = Some (maze', False) \<and> spanning_tree maze' 2 3"
  using generateMaze_spanning_tree[of 2 3 rev "\<lambda>_ _. 0"]
  by (simp add: MAX_ROWS_def MAX_COLS_def)

section \<open>Wall symmetry during and after generation\<close>

text \<open>
  Claim C3. Starting from the all-walls grid, the walls are symmetric after every number
  \<open>n\<close> of candidates considered by the loop (that is, between any two wall removals) and
  when \<open>generateMaze\<close> returns: for a cell and its neighbor in direction \<open>dir\<close>, the wall
  bit \<open>dir\<close> of the cell is set exactly when the opposite bit of the neighbor is set.
\<close>

theorem wall_symmetry_throughout_generation:
  assumes "1 \<le> nR" and "nR \<le> MAX_ROWS" and "1 \<le> nC" and "nC \<le> MAX_COLS"
    and "mset (rng (internalWalls nR nC)) = mset (internalWalls nR nC)"
  shows "(\<exists>maze' dsu' k'. generation_prefix maze nR nC rng n = Some (maze', dsu', k') \<and>
            wall_symmetric maze' nR nC) \<and>
         (\<exists>maze' w. generateMaze maze nR nC rng = Some (maze', w) \<and>
            wall_symmetric maze' nR nC)"
proof -
  from generation_prefix_inv[of nR nC rng maze n, OF assms(2,4,5)]
  have 1: "\<exists>maze' dsu' k'. generation_prefix maze nR nC rng n = Some (maze', dsu', k') \<and>
            wall_symmetric maze' nR nC"
    by (auto simp: gen_inv_def)
  from generateMaze_result[of nR nC rng maze, OF assms(1,3,2,4,5)]
  have 2: "\<exists>maze' w. generateMaze maze nR nC rng = Some (maze', w) \<and> wall_symmetric maze' nR nC"
    by (auto simp: gen_inv_def)
  from 1 2 show ?thesis ..
qed

theorem wall_symmetry_throughout_generation_witness:
  "(\<exists>maze' dsu' k'. generation_prefix (\<lambda>_ _. 0) 2 3 rev 4 = Some (maze', dsu', k') \<and>
      wall_symmetric maze' 2 3) \<and>
   (\<exists>maze' w. generateMaze (\<lambda>_ _. 0) 2 3 rev = Some (maze', w) \<and> wall_symmetric maze' 2 3)"
  using wall_symmetry_throughout_generation[of 2 3 rev "\<lambda>_ _. 0" 4]
  by (simp add: MAX_ROWS_def MAX_COLS_def)

section \<open>Distances to the goal\<close>

text \<open>
  Claim C4, as the code has it. After the distance-labeling phase of \<open>solveMazeBFS\<close> the
  goal cell \<open>(nR - 1, nC - 1)\<close> has distance 0, no cell index was pushed on the queue twice,
  every cell that the goal reaches through open passages carries the least number of hops
  of a walk from the goal to the cell (each hop leaves a cell in a direction whose wall bit
  is clear in that cell), which is also the least number of hops from the cell to the goal
  when the walls are symmetric, and every other cell of the grid keeps \<open>-1\<close>.
\<close>

theorem labelDistances_shortest:
  assumes "1 \<le> nR" and "nR \<le> MAX_ROWS" and "1 \<le> nC" and "nC \<le> MAX_COLS"
  shows "distances_correct maze nR nC (labelDistances cnt0 maze nR nC)"
proof -
  let ?g = "(nR - 1, nC - 1)" and ?P = "passages maze nR nC"
  from labelDistances_inv[OF assms] obtain cnt pushed where
    ld: "labelDistances cnt0 maze nR nC = (cnt, [], pushed)"
    and inv: "bfs_inv (snd (solveInit cnt0 maze nR nC)) nR nC (cnt, [], pushed)"
    by blast
  from assms have pos: "0 < nR" "0 < nC" by simp_all
  note P1 = passages_solveInit[of cnt0 maze nR nC]
  note F = bfs_inv_final[OF inv pos, unfolded P1]
  note sd = small_dims[OF assms(2,4)]
  have "if (?g, (r, c)) \<in> ?P\<^sup>*
        then 0 \<le> cnt r c \<and> shortest_hops ?P ?g (r, c) (nat (cnt r c)) \<and>
             (wall_symmetric maze nR nC \<longrightarrow> shortest_hops ?P (r, c) ?g (nat (cnt r c)))
        else cnt r c = -1"
    if rc: "r < nR" "c < nC" for r c
  proof (cases "(?g, (r, c)) \<in> ?P\<^sup>*")
    case True
    have g: "in_grid nR nC (r, c)" using rc by (simp add: in_grid_def)
    from F(3)[OF g True] have 1: "0 \<le> cnt r c" "shortest_hops ?P ?g (r, c) (nat (cnt r c))"
      by (simp_all add: label_def)
    have "shortest_hops ?P (r, c) ?g (nat (cnt r c))" if "wall_symmetric maze nR nC"
      using shortest_hops_sym[OF sym_passages[OF sd(3,4) that] 1(2)] .
    with True 1 show ?thesis by simp
  next
    case False
    have g: "in_grid nR nC (r, c)" using rc by (simp add: in_grid_def)
    from F(4)[OF g False] False show ?thesis by (simp add: label_def)
  qed
  moreover have "cnt (nR - 1) (nC - 1) = 0" using F(1) by (simp add: label_def)
  ultimately show ?thesis
    unfolding distances_correct_def ld prod.case using F(2) by blast
qed

theorem labelDistances_shortest_witness:
  "wall_symmetric (\<lambda>_ _. 0) 2 2 \<and>
   fst (labelDistances (\<lambda>_ _. 7) (\<lambda>_ _. 0) 2 2) 0 0 = 2 \<and>
   fst (labelDistances (\<lambda>_ _. 7) (\<lambda>_ _. 0) 2 2) 0 1 = 1 \<and>
   fst (labelDistances (\<lambda>_ _. 7) (\<lambda>_ _. 0) 2 2) 1 0 = 1 \<and>
   fst (labelDistances (\<lambda>_ _. 7) (\<lambda>_ _. 0) 2 2) 1 1 = 0 \<and>
   snd (snd (labelDistances (\<lambda>_ _. 7) (\<lambda>_ _. 0) 2 2)) = [3, 1, 2, 0] \<and>
   distances_correct (\<lambda>_ _. 0) 2 2 (labelDistances (\<lambda>_ _. 7) (\<lambda>_ _. 0) 2 2)"
proof -
  have s: "wall_symmetric (\<lambda>_ _. 0) 2 2" by (simp add: wall_symmetric_def)
  have l: "fst (labelDistances (\<lambda>_ _. 7) (\<lambda>_ _. 0) 2 2) 0 0 = 2 \<and>
           fst (labelDistances (\<lambda>_ _. 7) (\<lambda>_ _. 0) 2 2) 0 1 = 1 \<and>
           fst (labelDistances (\<lambda>_ _. 7) (\<lambda>_ _. 0) 2 2) 1 0 = 1 \<and>
           fst (labelDistances (\<lambda>_ _. 7) (\<lambda>_ _. 0) 2 2) 1 1 = 0 \<and>
           snd (snd (labelDistances (\<lambda>_ _. 7) (\<lambda>_ _. 0) 2 2)) = [3, 1, 2, 0]"
    by (simp add: labelDistances_def solveInit_eq bfs_loop.simps bfs_visit_def directions_def
        wall_defs VISITED_def set_cell_apply getNeighbor_def neighborOffset_def
        static_cast_int_def Let_def)
  have d: "(1::nat) \<le> 2" "2 \<le> MAX_ROWS" "2 \<le> MAX_COLS"
    by (simp_all add: MAX_ROWS_def MAX_COLS_def)
  note t = labelDistances_shortest[of 2 2 "\<lambda>_ _. 0" "\<lambda>_ _. 7", OF d(1,2) d(1,3)]
  from s l t show ?thesis by blast
qed

text \<open>
  Claim C4 as it is worded, with the hop count taken from the cell to the goal, fails on
  a grid whose walls are not symmetric. On the \<open>1 \<times> 2\<close> grid \<open>one_way_grid\<close> the goal
  \<open>(0, 1)\<close> reaches the cell \<open>(0, 0)\<close> through its open up-left wall and the cell is
  labelled 1, but no walk leads from \<open>(0, 0)\<close> to the goal, so 1 is not the least number
  of hops from that cell to the goal.
\<close>

theorem labelDistances_one_way_counterexample:
  "((0, 1), (0, 0)) \<in> (passages one_way_grid 1 2)\<^sup>* \<and>
   fst (labelDistances zero_count one_way_grid 1 2) 0 0 = 1 \<and>
   ((0, 0), (0, 1)) \<notin> (passages one_way_grid 1 2)\<^sup>* \<and>
   \<not> shortest_hops (passages one_way_grid 1 2) (0, 0) (0, 1)
       (nat (fst (labelDistances zero_count one_way_grid 1 2) 0 0))"
proof -
  have a: "((0, 1), (0, 0)) \<in> (passages one_way_grid 1 2)\<^sup>*"
    using one_way_passage by (rule r_into_rtrancl)
  have b: "((0, 0), (0, 1)) \<notin> (passages one_way_grid 1 2)\<^sup>*"
    using one_way_walled by (rule no_walk_from_walled) simp
  have "\<not> shortest_hops (passages one_way_grid 1 2) (0, 0) (0, 1) n" for n
    using b relpow_imp_rtrancl unfolding shortest_hops_def by blast
  with a b one_way_label show ?thesis by blast
qed

section \<open>The reconstructed path\<close>

text \<open>
  Claim C5, as the code has it. On a grid with symmetric walls (the invariant of the grid
  that generation keeps), when the start cell \<open>(0, 0)\<close> has an assigned distance,
  \<open>solveMazeBFS\<close> returns normally and the cells of the grid that carry the path flag are
  exactly the \<open>distance[start] + 1\<close> cells of a path from the start to the goal:
  consecutive cells are joined by an open passage, the distance decreases by one at every
  step and is 0 at the goal, and when the passages are acyclic (as in a spanning tree) this
  path is the only simple open-passage path from the start to the goal.
\<close>

theorem solveMazeBFS_marks_shortest_path:
  assumes "1 \<le> nR" and "nR \<le> MAX_ROWS" and "1 \<le> nC" and "nC \<le> MAX_COLS"
    and "wall_symmetric maze nR nC"
    and "fst (labelDistances cnt0 maze nR nC) 0 0 \<noteq> -1"
  shows "path_reconstructed maze nR nC (fst (labelDistances cnt0 maze nR nC))
           (solveMazeBFS cnt0 maze nR nC)"
proof -
  let ?g = "(nR - 1, nC - 1)" and ?P = "passages maze nR nC"
  from labelDistances_inv[OF assms(1-4)] obtain cnt pushed where
    ld: "labelDistances cnt0 maze nR nC = (cnt, [], pushed)"
    and inv: "bfs_inv (snd (solveInit cnt0 maze nR nC)) nR nC (cnt, [], pushed)"
    by blast
  from assms have pos: "0 < nR" "0 < nC" by simp_all
  note P1 = passages_solveInit[of cnt0 maze nR nC]
  note F = bfs_inv_final[OF inv pos, unfolded P1]
  note sd = small_dims[OF assms(2,4)]
  have sP: "sym ?P" using sd(3,4) assms(5) by (rule sym_passages)
  from assms(6) ld have st: "cnt 0 0 \<noteq> -1" by simp
  have un: "label cnt v \<noteq> -1" if "in_grid nR nC v" "(?g, v) \<in> ?P\<^sup>*" for v
    using F(3)[OF that] by simp
  have sh: "0 \<le> label cnt v \<and> shortest_hops ?P ?g v (nat (label cnt v))"
    if "in_grid nR nC v" "label cnt v \<noteq> -1" for v
    using F(3)[OF that(1)] F(4)[OF that(1)] that(2) by blast
  have step: "\<exists>w. (v, w) \<in> ?P \<and> label cnt w = label cnt v - 1"
    if "in_grid nR nC v" "0 < label cnt v" for v
    using sP sh un passages_grid that by (rule pred_on_shortest_walk)
  obtain cnt1 maze1 where init: "solveInit cnt0 maze nR nC = (cnt1, maze1)"
    by (cases "solveInit cnt0 maze nR nC")
  have m1: "maze1 = (\<lambda>r c. if r < nR \<and> c < nC then maze r c AND NOT VISITED else maze r c)"
    using init by (simp add: solveInit_eq)
  let ?m0 = "set_cell maze1 0 0 (maze1 0 0 OR VISITED)"
  have e: "(nR + 2 ^ 32 - 1) mod 2 ^ 32 = nR - 1" "(nC + 2 ^ 32 - 1) mod 2 ^ 32 = nC - 1"
    using assms(1-4) end_cell_valid[of nR] end_cell_valid[of nC]
    by (simp_all add: MAX_ROWS_def MAX_COLS_def)
  have res: "solveMazeBFS cnt0 maze nR nC = trace_loop cnt nR nC ?m0 0 0"
  proof -
    have "\<not> nR \<le> nR - 1" "\<not> nC \<le> nC - 1" using assms(1,3) by arith+
    then show ?thesis
      unfolding solveMazeBFS_def e ld init using st
      by (simp add: Let_def)
  qed
  have P0: "passages ?m0 nR nC = ?P"
    using P1 by (simp add: passages_mark init)
  have g0: "in_grid nR nC (0, 0)" using pos by (simp add: in_grid_def)
  from sh[OF g0] st have nn: "0 \<le> cnt 0 0" by (simp add: label_def)
  from trace_loop_path[OF P0 pos nn step] obtain p where
    t: "trace_loop cnt nR nC ?m0 0 0 =
          (Solved, \<lambda>r' c'. if (r', c') \<in> set p then ?m0 r' c' OR VISITED else ?m0 r' c')"
    and s1: "successively (\<lambda>x y. (x, y) \<in> ?P) ((0, 0) # p)"
    and s2: "successively (\<lambda>x y. label cnt y = label cnt x - 1) ((0, 0) # p)"
    and len: "length p = nat (cnt 0 0)"
    and lst: "label cnt (last ((0, 0) # p)) = 0"
    by blast
  let ?p = "(0, 0) # p"
  have ing: "\<forall>x \<in> set ?p. in_grid nR nC x" using s1 g0 by (rule walk_in_grid)
  have "in_grid nR nC (last ?p)" using ing last_in_set[of ?p] by blast
  from sh[OF this] lst have "(?g, last ?p) \<in> ?P ^^ 0" by (simp add: shortest_hops_def)
  then have last: "last ?p = ?g" by simp
  have dist: "distinct ?p" using s2 by (rule countdown_distinct)
  have sp: "simple_path ?P (0, 0) ?g ?p"
    unfolding simple_path_def using last dist s1 by simp
  have marked: "{(r, c). r < nR \<and> c < nC \<and> snd (solveMazeBFS cnt0 maze nR nC) r c AND VISITED \<noteq> 0}
                  = set ?p"
  proof (intro set_eqI iffI)
    fix x assume "x \<in> {(r, c). r < nR \<and> c < nC \<and>
                    snd (solveMazeBFS cnt0 maze nR nC) r c AND VISITED \<noteq> 0}"
    then obtain r c where x: "x = (r, c)" and rc: "r < nR" "c < nC"
      and v: "snd (solveMazeBFS cnt0 maze nR nC) r c AND VISITED \<noteq> 0" by blast
    show "x \<in> set ?p"
    proof (rule ccontr)
      assume "x \<notin> set ?p"
      with x have n: "(r, c) \<notin> set p" "\<not> (r = 0 \<and> c = 0)" by auto
      from n have "snd (solveMazeBFS cnt0 maze nR nC) r c = maze1 r c"
        unfolding res t by (auto simp: set_cell_apply)
      also have "\<dots> = maze r c AND NOT VISITED" using rc by (simp add: m1)
      finally show False using v VISITED_test(2) by simp
    qed
  next
    fix x assume xp: "x \<in> set ?p"
    obtain r c where x: "x = (r, c)" by (cases x)
    from ing xp x have rc: "r < nR" "c < nC" by (auto simp: in_grid_def)
    have "\<exists>y. snd (solveMazeBFS cnt0 maze nR nC) r c = y OR VISITED"
    proof (cases "(r, c) \<in> set p")
      case True
      then show ?thesis unfolding res t by auto
    next
      case False
      with xp x have "r = 0" "c = 0" by auto
      with False show ?thesis unfolding res t by (auto simp: set_cell_apply)
    qed
    then have "snd (solveMazeBFS cnt0 maze nR nC) r c AND VISITED \<noteq> 0"
      using VISITED_test(1) by auto
    with rc x show "x \<in> {(r, c). r < nR \<and> c < nC \<and>
                    snd (solveMazeBFS cnt0 maze nR nC) r c AND VISITED \<noteq> 0}" by simp
  qed
  have uniq: "p' = ?p" if "forest ?P" "simple_path ?P (0, 0) ?g p'" for p'
    using simple_path_unique[OF sP that(1) that(2) sp] .
  have solved: "fst (solveMazeBFS cnt0 maze nR nC) = Solved" unfolding res t by simp
  have "length ?p = nat (cnt 0 0) + 1" using len by simp
  with sp marked s2 lst uniq solved show ?thesis
    unfolding path_reconstructed_def ld fst_conv by blast
qed

theorem solveMazeBFS_marks_shortest_path_witness:
  "wall_symmetric (\<lambda>r c. if c = 1 then 0x1F else if r = 0 then 0x33 else 0x3A) 2 2 \<and>
   fst (labelDistances (\<lambda>_ _. 0)
          (\<lambda>r c. if c = 1 then 0x1F else if r = 0 then 0x33 else 0x3A) 2 2) 0 0 = 2 \<and>
   path_reconstructed (\<lambda>r c. if c = 1 then 0x1F else if r = 0 then 0x33 else 0x3A) 2 2
     (fst (labelDistances (\<lambda>_ _. 0)
             (\<lambda>r c. if c = 1 then 0x1F else if r = 0 then 0x33 else 0x3A) 2 2))
     (solveMazeBFS (\<lambda>_ _. 0)
        (\<lambda>r c. if c = 1 then 0x1F else if r = 0 then 0x33 else 0x3A) 2 2)"
proof -
  let ?M = "\<lambda>(r::nat) (c::nat). if c = 1 then 0x1F else if r = 0 then 0x33 else (0x3A :: u8)"
  let ?sym = "\<lambda>r c. \<forall>dir \<in> set directions. \<forall>r2 c2.
                getNeighbor r c dir 2 2 = Some (r2, c2) \<longrightarrow>
                (?M r c AND dir \<noteq> 0) = (?M r2 c2 AND getOppositeWall dir \<noteq> 0)"
  note ev = getNeighbor_def neighborOffset_def static_cast_int_def getOppositeWall_def
    directions_def wall_defs Let_def
  have c: "?sym 0 0" "?sym 0 1" "?sym 1 0" "?sym 1 1" by (simp_all add: ev)
  have "?sym r c" if "r < 2" "c < 2" for r c
  proof -
    from that have "r = 0 \<or> r = 1" "c = 0 \<or> c = 1" by arith+
    then show ?thesis using c by (elim disjE) simp_all
  qed
  then have s: "wall_symmetric ?M 2 2" unfolding wall_symmetric_def by blast
  have h: "fst (labelDistances (\<lambda>_ _. 0) ?M 2 2) 0 0 = 2"
    by (simp add: labelDistances_def solveInit_eq bfs_loop.simps bfs_visit_def directions_def
        wall_defs VISITED_def set_cell_apply getNeighbor_def neighborOffset_def
        static_cast_int_def Let_def)
  then have h': "fst (labelDistances (\<lambda>_ _. 0) ?M 2 2) 0 0 \<noteq> -1" by simp
  have d: "(1::nat) \<le> 2" "2 \<le> MAX_ROWS" "2 \<le> MAX_COLS"
    by (simp_all add: MAX_ROWS_def MAX_COLS_def)
  from solveMazeBFS_marks_shortest_path[of 2 2 ?M "\<lambda>_ _. 0", OF d(1,2) d(1,3) s h'] s h
  show ?thesis by blast
qed

text \<open>
  Claim C5 without the symmetry of the walls fails. On the \<open>1 \<times> 2\<close> grid
  \<open>one_way_grid\<close> the start cell \<open>(0, 0)\<close> has the assigned distance 1, yet the trace finds
  no open direction from it: \<open>solveMazeBFS\<close> returns on its trace error with the path flag
  on the start cell alone, one cell instead of \<open>distance[start] + 1 = 2\<close>.
\<close>

theorem solveMazeBFS_one_way_counterexample:
  "fst (labelDistances zero_count one_way_grid 1 2) 0 0 = 1 \<and>
   fst (solveMazeBFS zero_count one_way_grid 1 2) = TraceError \<and>
   snd (solveMazeBFS zero_count one_way_grid 1 2) 0 0 AND VISITED \<noteq> 0 \<and>
   snd (solveMazeBFS zero_count one_way_grid 1 2) 0 1 AND VISITED = 0 \<and>
   \<not> path_reconstructed one_way_grid 1 2 (fst (labelDistances zero_count one_way_grid 1 2))
       (solveMazeBFS zero_count one_way_grid 1 2)"
proof -
  let ?cnt = "fst (labelDistances zero_count one_way_grid 1 2)"
  let ?m1 = "snd (solveInit zero_count one_way_grid 1 2)"
  let ?m0 = "set_cell ?m1 0 0 (?m1 0 0 OR VISITED)"
  note h = one_way_label
  have d: "(1::nat) \<le> 1" "1 \<le> MAX_ROWS" "(1::nat) \<le> 2" "2 \<le> MAX_COLS"
    by (simp_all add: MAX_ROWS_def MAX_COLS_def)
  from h have "?cnt 0 0 \<noteq> -1" by simp
  from solveMazeBFS_labelled[OF d this]
  have res: "solveMazeBFS zero_count one_way_grid 1 2 = trace_loop ?cnt 1 2 ?m0 0 0" .
  have "\<forall>dir \<in> set directions. ?m0 0 0 AND dir \<noteq> 0"
    by (simp add: solveInit_eq set_cell_apply one_way_grid_def directions_def wall_defs
        VISITED_def)
  then have fn: "find_next ?m0 ?cnt 1 2 0 0 directions = None"
    by (rule find_next_walled[where maze="?m0" and r=0 and c=0])
  from h have nz: "?cnt 0 0 \<noteq> 0" by simp
  have "trace_loop ?cnt 1 2 ?m0 0 0 = (TraceError, ?m0)"
    using nz fn by (rule trace_loop_error[where cnt="?cnt" and r=0 and c=0 and maze="?m0"])
  then have r: "solveMazeBFS zero_count one_way_grid 1 2 = (TraceError, ?m0)" unfolding res .
  have 1: "fst (solveMazeBFS zero_count one_way_grid 1 2) = TraceError" unfolding r by simp
  have 2: "snd (solveMazeBFS zero_count one_way_grid 1 2) 0 0 AND VISITED \<noteq> 0"
    unfolding r by (simp add: solveInit_eq set_cell_apply one_way_grid_def VISITED_def)
  have 3: "snd (solveMazeBFS zero_count one_way_grid 1 2) 0 1 AND VISITED = 0"
    unfolding r by (simp add: solveInit_eq set_cell_apply one_way_grid_def VISITED_def)
  have 4: "\<not> path_reconstructed one_way_grid 1 2 ?cnt (solveMazeBFS zero_count one_way_grid 1 2)"
    unfolding path_reconstructed_def using 1 by simp
  show ?thesis by (intro conjI h 1 2 3 4)
qed

section \<open>Every internal edge is enumerated once\<close>

text \<open>
  Claim C6. The candidate list holds exactly the triples \<open>(r, c, d)\<close> of a cell of the
  grid and a direction among \<open>WALL_DOWN\<close>, \<open>WALL_UP_RIGHT\<close> and \<open>WALL_DOWN_RIGHT\<close> whose
  neighbor lies in the grid, each of them once, so every entry denotes an internal edge;
  and it has every undirected internal edge exactly once: for every cell \<open>(r, c)\<close> of the
  grid and every neighbor \<open>(r2, c2)\<close> of it, exactly one entry of the list denotes the pair.
\<close>

theorem internal_edge_listed_once:
  assumes "nR < 2 ^ 32" and "nC < 2 ^ 32"
    and "r < nR" and "c < nC"
    and "getNeighbor r c dir nR nC = Some (r2, c2)"
  shows "set (internalWalls nR nC) =
           {Wall r' c' d | r' c' d. r' < nR \<and> c' < nC \<and> d \<in> candidate_dirs \<and>
                                   getNeighbor r' c' d nR nC \<noteq> None} \<and>
         distinct (internalWalls nR nC) \<and>
         length (filter (\<lambda>w. denotes nR nC w (r, c) (r2, c2)) (internalWalls nR nC)) = 1"
proof -
  have dir: "dir \<in> set directions" using assms(5) by (rule getNeighbor_valid_dir)
  have rev_nb: "getNeighbor r2 c2 (getOppositeWall dir) nR nC = Some (r, c)"
    using assms(5,3,4,1,2) by (rule getNeighbor_opp)
  have b2: "r2 < nR" "c2 < nC" using assms(5) getNeighbor_dims by blast+
  have ne: "(r2, c2) \<noteq> (r, c)" using assms(5) by (rule getNeighbor_neq)
  define w0 where
    "w0 = (if dir \<in> candidate_dirs then Wall r c dir else Wall r2 c2 (getOppositeWall dir))"
  have "x \<in> set (internalWalls nR nC) \<and> denotes nR nC x (r, c) (r2, c2) \<longleftrightarrow> x = w0" for x
  proof (cases "dir \<in> candidate_dirs")
    case True
    then have nopp: "getOppositeWall dir \<notin> candidate_dirs"
      using opposite_candidate[OF dir] by simp
    have in1: "Wall r c dir \<in> set (internalWalls nR nC)"
      using True assms(3,4,5) by (simp add: mem_internalWalls)
    have out2: "Wall r2 c2 (getOppositeWall dir) \<notin> set (internalWalls nR nC)"
      using nopp by (simp add: mem_internalWalls)
    have w0: "w0 = Wall r c dir" using True by (simp add: w0_def)
    show ?thesis
      unfolding denotes_cases[OF assms] w0 using in1 out2 by blast
  next
    case False
    then have opp: "getOppositeWall dir \<in> candidate_dirs"
      using opposite_candidate[OF dir] by simp
    have out1: "Wall r c dir \<notin> set (internalWalls nR nC)"
      using False by (simp add: mem_internalWalls)
    have in2: "Wall r2 c2 (getOppositeWall dir) \<in> set (internalWalls nR nC)"
      using opp b2 rev_nb by (simp add: mem_internalWalls)
    have w0: "w0 = Wall r2 c2 (getOppositeWall dir)" using False by (simp add: w0_def)
    show ?thesis
      unfolding denotes_cases[OF assms] w0 using out1 in2 by blast
  qed
  with distinct_internalWalls
  have one: "length (filter (\<lambda>w. denotes nR nC w (r, c) (r2, c2)) (internalWalls nR nC)) = 1"
    by (rule length_filter_one)
  show ?thesis by (intro conjI set_internalWalls distinct_internalWalls one)
qed


theorem internal_edge_listed_once_witness:
  "internalWalls 2 2 =
     [Wall 0 0 WALL_DOWN, Wall 0 0 WALL_DOWN_RIGHT, Wall 0 1 WALL_DOWN,
      Wall 1 0 WALL_UP_RIGHT, Wall 1 0 WALL_DOWN_RIGHT] \<and>
   getNeighbor 0 0 WALL_DOWN_RIGHT 2 2 = Some (0, 1) \<and>
   set (internalWalls 2 2) =
     {Wall r' c' d | r' c' d. r' < 2 \<and> c' < 2 \<and> d \<in> candidate_dirs \<and>
                             getNeighbor r' c' d 2 2 \<noteq> None} \<and>
   distinct (internalWalls 2 2) \<and>
   length (filter (\<lambda>w. denotes 2 2 w (0, 0) (0, 1)) (internalWalls 2 2)) = 1"
proof -
  have u: "[0..<2] = [0, 1::nat]" by (simp add: upt_rec)
  have l: "internalWalls 2 2 =
     [Wall 0 0 WALL_DOWN, Wall 0 0 WALL_DOWN_RIGHT, Wall 0 1 WALL_DOWN,
      Wall 1 0 WALL_UP_RIGHT, Wall 1 0 WALL_DOWN_RIGHT]"
    unfolding internalWalls_def u
    by (simp add: cellWalls_def getNeighbor_def neighborOffset_def
        static_cast_int_def wall_defs Let_def)
  have nb: "getNeighbor 0 0 WALL_DOWN_RIGHT 2 2 = Some (0, 1)"
    by (simp add: getNeighbor_def neighborOffset_def static_cast_int_def wall_defs Let_def)
  have d: "(2::nat) < 2 ^ 32" "(0::nat) < 2" by simp_all
  note t = internal_edge_listed_once[of 2 2 0 0 WALL_DOWN_RIGHT 0 1, OF d(1) d(1) d(2) d(2) nb]
  show ?thesis by (intro conjI l nb t[THEN conjunct1] t[THEN conjunct2, THEN conjunct1]
      t[THEN conjunct2, THEN conjunct2])
qed

section \<open>Unreachable goal\<close>

text \<open>
  Claim C7. When the start cell \<open>(0, 0)\<close> still has the sentinel \<open>-1\<close> after distance
  labeling, the solver reports that there is no solution and returns without setting a
  path flag: in the resulting grid the \<open>VISITED\<close> bit of every cell of the \<open>nR \<times> nC\<close>
  grid is clear, and the wall bits of every cell are those on entry.
\<close>

theorem unreachable_goal_sets_no_path_flag:
  assumes "1 \<le> nR" and "nR \<le> MAX_ROWS" and "1 \<le> nC" and "nC \<le> MAX_COLS"
    and "fst (labelDistances cnt0 maze nR nC) 0 0 = -1"
  shows "fst (solveMazeBFS cnt0 maze nR nC) = NoSolution \<and>
         no_path_flags (snd (solveMazeBFS cnt0 maze nR nC)) nR nC \<and>
         same_walls maze (snd (solveMazeBFS cnt0 maze nR nC))"
proof -
  obtain cnt q pushed where lab: "labelDistances cnt0 maze nR nC = (cnt, q, pushed)"
    by (cases "labelDistances cnt0 maze nR nC")
  with assms(5) have u: "cnt 0 0 = -1" by simp
  have e: "(nR + 2 ^ 32 - 1) mod 2 ^ 32 = nR - 1" "(nC + 2 ^ 32 - 1) mod 2 ^ 32 = nC - 1"
    using assms(1-4) end_cell_valid[of nR] end_cell_valid[of nC]
    by (simp_all add: MAX_ROWS_def MAX_COLS_def)
  have res: "solveMazeBFS cnt0 maze nR nC = (NoSolution, snd (solveInit cnt0 maze nR nC))"
  proof -
    have "\<not> nR \<le> nR - 1" "\<not> nC \<le> nC - 1" using assms(1,3) by arith+
    then show ?thesis
      unfolding solveMazeBFS_def e lab using u
      by (simp add: Let_def split: prod.splits)
  qed
  have "no_path_flags (snd (solveInit cnt0 maze nR nC)) nR nC"
    by (simp add: no_path_flags_def solveInit_eq and.assoc)
  moreover have "same_walls maze (snd (solveInit cnt0 maze nR nC))"
    unfolding same_walls_def using solveInit_frame and_ALL_WALLS_frame by blast
  ultimately show ?thesis by (simp add: res)
qed

theorem unreachable_goal_sets_no_path_flag_witness:
  "fst (labelDistances (\<lambda>_ _. 0) (\<lambda>_ _. 0xFF) 1 2) 0 0 = -1 \<and>
   fst (solveMazeBFS (\<lambda>_ _. 0) (\<lambda>_ _. 0xFF) 1 2) = NoSolution \<and>
   no_path_flags (snd (solveMazeBFS (\<lambda>_ _. 0) (\<lambda>_ _. 0xFF) 1 2)) 1 2 \<and>
   same_walls (\<lambda>_ _. 0xFF) (snd (solveMazeBFS (\<lambda>_ _. 0) (\<lambda>_ _. 0xFF) 1 2))"
proof -
  have h: "fst (labelDistances (\<lambda>_ _. 0) (\<lambda>_ _. 0xFF) 1 2) 0 0 = -1"
    by (simp add: labelDistances_def solveInit_eq bfs_loop.simps bfs_visit_def directions_def
        wall_defs VISITED_def set_cell_apply)
  from unreachable_goal_sets_no_path_flag[of 1 2 "\<lambda>_ _. 0" "\<lambda>_ _. 0xFF", OF _ _ _ _ h] h
  show ?thesis by (simp add: MAX_ROWS_def MAX_COLS_def)
qed

section \<open>Generation is determined by the candidate order\<close>

text \<open>
  Claim C8. Two runs of \<open>generateMaze\<close> on the same dimensions whose shuffles give the
  same ordered candidate list return the same grid (every cell of the \<open>nR \<times> nC\<close> grid
  has the same byte, hence the same removed walls) and the same warning flag, whatever
  the arrays held before.
\<close>

theorem generateMaze_deterministic_in_order:
  assumes "1 \<le> nR" and "nR \<le> MAX_ROWS" and "1 \<le> nC" and "nC \<le> MAX_COLS"
    and "mset (rng1 (internalWalls nR nC)) = mset (internalWalls nR nC)"
    and "rng1 (internalWalls nR nC) = rng2 (internalWalls nR nC)"
  shows "\<exists>g1 g2 w. generateMaze maze1 nR nC rng1 = Some (g1, w) \<and>
                   generateMaze maze2 nR nC rng2 = Some (g2, w) \<and> grid_eq nR nC g1 g2"
proof -
  from generateMaze_result[of nR nC rng1 maze1, OF assms(1,3,2,4,5)] obtain g1 where
    g1: "generateMaze maze1 nR nC rng1 = Some (g1, False)" by blast
  from generateMaze_same_order[of rng1 nR nC rng2 maze1 g1 False maze2, OF assms(6) g1] g1
  show ?thesis by blast
qed

theorem generateMaze_deterministic_in_order_witness:
  "\<exists>g1 g2 w. generateMaze (\<lambda>_ _. 0) 2 3 rev = Some (g1, w) \<and>
             generateMaze (\<lambda>_ _. 0xFF) 2 3 (\<lambda>ws. rev (rev (rev ws))) = Some (g2, w) \<and>
             grid_eq 2 3 g1 g2"
  using generateMaze_deterministic_in_order[of 2 3 rev "\<lambda>ws. rev (rev (rev ws))"
      "\<lambda>_ _. 0" "\<lambda>_ _. 0xFF"]
  by (simp add: MAX_ROWS_def MAX_COLS_def)

section \<open>The solver's frame\<close>

text \<open>
  Claim C9. The solver changes nothing but the path flag: for every cell, the six wall
  bits and the \<open>DEAD_END\<close> bit after \<open>solveMazeBFS\<close> are those on entry. The statement
  is about the function's result, so it covers every way the solver returns (invalid end
  cell, no solution, trace error, solved).
\<close>

theorem solveMazeBFS_keeps_walls_and_dead_end:
  "snd (solveMazeBFS cnt0 maze nR nC) r c AND (ALL_WALLS OR DEAD_END) =
   maze r c AND (ALL_WALLS OR DEAD_END)"
  using solveMazeBFS_frame[of cnt0 maze nR nC r c] by (simp only: not_VISITED)

theorem solveMazeBFS_keeps_walls_and_dead_end_witness:
  "snd (solveMazeBFS (\<lambda>_ _. 0) (\<lambda>_ _. 0xFF) 1 2) 0 1 AND (ALL_WALLS OR DEAD_END) = 0xBF"
  using solveMazeBFS_keeps_walls_and_dead_end[of "\<lambda>_ _. 0" "\<lambda>_ _. 0xFF" 1 2 0 1]
  by (simp add: ALL_WALLS_def DEAD_END_def)

section \<open>Generation keeps the boundary closed\<close>

text \<open>
  Claim C10. After \<open>generateMaze\<close>, for every cell of the grid and every direction in
  which \<open>getNeighbor\<close> fails, the wall bit of that direction is still set in the cell.
\<close>

theorem generateMaze_keeps_boundary:
  assumes "1 \<le> nR" and "nR \<le> MAX_ROWS" and "1 \<le> nC" and "nC \<le> MAX_COLS"
    and "mset (rng (internalWalls nR nC)) = mset (internalWalls nR nC)"
  shows "\<exists>maze' w. generateMaze maze nR nC rng = Some (maze', w) \<and> boundary_closed maze' nR nC"
  using generateMaze_result[of nR nC rng maze, OF assms(1,3,2,4,5)] by (auto simp: gen_inv_def)

theorem generateMaze_keeps_boundary_witness:
  "\<exists>maze' w. generateMaze (\<lambda>_ _. 0) 2 3 rev = Some (maze', w) \<and> boundary_closed maze' 2 3"
  using generateMaze_keeps_boundary[of 2 3 rev "\<lambda>_ _. 0"]
  by (simp add: MAX_ROWS_def MAX_COLS_def)

end
